theory Spec2Isabelle
  imports Complex_Main "HOL-Library.Multiset" "HOL-Library.Sublist"
begin

section \<open>Data model\<close>

text \<open>
  The notebook works on qiskit \<open>Pauli\<close> objects, of which it reads the boolean arrays
  \<open>x\<close> and \<open>z\<close> (index = qubit), the group phase \<open>phase\<close> (an exponent of \<open>-i\<close>, so
  \<open>2\<close> is the sign \<open>-1\<close>), \<open>num_qubits\<close>, \<open>to_label()\<close> and \<open>commutes\<close>; and on
  \<open>PauliOp\<close> objects, a Pauli (\<open>primitive\<close>) with a coefficient (\<open>coeff\<close>). Python floats
  are modelled by exact reals: rounding is not modelled.
\<close>

datatype error =
  ValueError          \<comment> \<open>tuple unpacking of a line, or \<open>float()\<close>\<close>
  | QiskitError       \<comment> \<open>\<open>Pauli(s)\<close> on a label that is not a Pauli string\<close>
  | IndexError        \<comment> \<open>\<open>paulis[0]\<close>, \<open>circuits[i]\<close>, \<open>list.pop(i)\<close> out of range\<close>
  | CircuitError      \<comment> \<open>a gate on a qubit the circuit does not have\<close>
  | LinAlgError       \<comment> \<open>\<open>np.linalg.matrix_rank\<close> on an array without columns\<close>
  | SweepRowsError    \<comment> \<open>\<open>raise Exception("Unexpected result in sweep_rows")\<close>\<close>
  | FailedClifford    \<comment> \<open>\<open>assert np.logical_not(X).all(), "Failed Clifford diagonalization"\<close>\<close>
  | TheoryOnly        \<comment> \<open>\<open>assert np.logical_not(X2).all(), "Diagnolization worked in theory only"\<close>\<close>

record pauli =
  px :: "bool list"
  pz :: "bool list"
  phase :: nat

record pauli_op =
  primitive :: pauli
  coeff :: real

definition num_qubits :: "pauli \<Rightarrow> nat" where
  "num_qubits p = length (px p)"

text \<open>The gates the notebook appends, and the inverse of \<open>s\<close> that \<open>QuantumCircuit.inverse()\<close>
  produces. A circuit is the list of its gates in order of application (\<open>qc.data\<close>).\<close>

datatype gate =
  H_gate nat
  | S_gate nat
  | Sdg_gate nat
  | CX_gate nat nat      \<comment> \<open>control, target\<close>
  | RZ_gate real nat
  | P_gate real nat
  | X_gate nat

type_synonym circuit = "gate list"

fun qubits :: "gate \<Rightarrow> nat list" where
  "qubits (H_gate q) = [q]"
| "qubits (S_gate q) = [q]"
| "qubits (Sdg_gate q) = [q]"
| "qubits (CX_gate c t) = [c, t]"
| "qubits (RZ_gate a q) = [q]"
| "qubits (P_gate a q) = [q]"
| "qubits (X_gate q) = [q]"

fun is_h :: "gate \<Rightarrow> bool" where
  "is_h (H_gate q) = True"
| "is_h g = False"

section \<open>Step 0: reading the Pauli strings\<close>

text \<open>
  \<^verbatim>\<open>paulis = [PauliOp(Pauli(s), (-1 if sign == '-' else 1) * float(prefactor))
            for sign, prefactor, _, s in
            [pauli.strip().split(' ') for pauli in pauli_strings.read().splitlines() if pauli]]\<close>
  The model starts from the list of lines that \<open>read().splitlines()\<close> returns. Python's
  \<open>float\<close> is a parameter \<open>float_of\<close> (\<open>None\<close> where it raises ValueError).
\<close>

definition is_space :: "char \<Rightarrow> bool" where
  "is_space c = (c \<in> set [CHR 0x09, CHR 0x0A, CHR 0x0B, CHR 0x0C, CHR 0x0D,
                          CHR 0x1C, CHR 0x1D, CHR 0x1E, CHR 0x1F, CHR 0x20])"

definition strip :: "string \<Rightarrow> string" where
  "strip s = rev (dropWhile is_space (rev (dropWhile is_space s)))"

fun split_sp :: "string \<Rightarrow> string list" where
  "split_sp [] = [[]]"
| "split_sp (c # cs) =
     (if c = CHR '' '' then [] # split_sp cs
      else (case split_sp cs of w # ws \<Rightarrow> (c # w) # ws | [] \<Rightarrow> [[c]]))"

text \<open>\<open>Pauli(s)\<close> on a plain label: the last character is qubit 0. A label with a phase
  prefix (\<open>-XZ\<close>, \<open>iXZ\<close>), which qiskit also accepts, is outside the input format and is
  treated like any other string that is not a Pauli string.\<close>

definition pauli_of_label :: "string \<Rightarrow> error + pauli" where
  "pauli_of_label s =
     (if \<forall>c \<in> set s. c \<in> set ''IXYZ''
      then Inr \<lparr>px = rev (map (\<lambda>c. c = CHR ''X'' \<or> c = CHR ''Y'') s),
                pz = rev (map (\<lambda>c. c = CHR ''Z'' \<or> c = CHR ''Y'') s),
                phase = 0\<rparr>
      else Inl QiskitError)"

definition parse_line :: "(string \<Rightarrow> real option) \<Rightarrow> string \<Rightarrow> error + pauli_op" where
  "parse_line float_of line =
     (case split_sp (strip line) of
        [sign, prefactor, u, s] \<Rightarrow>
          (case pauli_of_label s of
             Inl e \<Rightarrow> Inl e
           | Inr p \<Rightarrow>
               (case float_of prefactor of
                  None \<Rightarrow> Inl ValueError
                | Some c \<Rightarrow>
                    Inr \<lparr>primitive = p, coeff = (if sign = ''-'' then - 1 else 1) * c\<rparr>))
      | _ \<Rightarrow> Inl ValueError)"

fun parse_lines :: "(string \<Rightarrow> real option) \<Rightarrow> string list \<Rightarrow> error + pauli_op list" where
  "parse_lines float_of [] = Inr []"
| "parse_lines float_of (l # ls) =
     (case parse_line float_of l of
        Inl e \<Rightarrow> Inl e
      | Inr p \<Rightarrow>
          (case parse_lines float_of ls of
             Inl e \<Rightarrow> Inl e
           | Inr ps \<Rightarrow> Inr (p # ps)))"

definition read_paulis :: "(string \<Rightarrow> real option) \<Rightarrow> string list \<Rightarrow> error + pauli_op list" where
  "read_paulis float_of lines = parse_lines float_of (filter (\<lambda>l. l \<noteq> []) lines)"

section \<open>Step 1: grouping commuting Paulis\<close>

text \<open>qiskit's \<open>Pauli.commutes\<close>: the parities of \<open>x1 & z2\<close> and of \<open>x2 & z1\<close> agree.\<close>

definition count_and :: "bool list \<Rightarrow> bool list \<Rightarrow> nat" where
  "count_and xs zs = length (filter (\<lambda>(a, b). a \<and> b) (zip xs zs))"

definition commutes :: "pauli \<Rightarrow> pauli \<Rightarrow> bool" where
  "commutes p q = (count_and (px p) (pz q) mod 2 = count_and (px q) (pz p) mod 2)"

text \<open>
  \<^verbatim>\<open>for pauli in paulis:
      for subset in commuting_subsets:
          if all([pauli.primitive.commutes(p.primitive) for p in subset]):
              subset.append(pauli)
              break
      else:
          commuting_subsets.append([pauli])\<close>
\<close>

fun add_pauli :: "pauli_op \<Rightarrow> pauli_op list list \<Rightarrow> pauli_op list list" where
  "add_pauli p [] = [[p]]"
| "add_pauli p (grp # rest) =
     (if \<forall>q \<in> set grp. commutes (primitive p) (primitive q)
      then (grp @ [p]) # rest
      else grp # add_pauli p rest)"

definition commuting_subsets :: "pauli_op list \<Rightarrow> pauli_op list list" where
  "commuting_subsets paulis = fold add_pauli paulis []"

section \<open>Step 2: simultaneous diagonalization\<close>

text \<open>
  A boolean numpy array of shape \<open>(n, m)\<close> is modelled by its entry function; the shape is
  passed along. \<open>X\<close>, \<open>Z\<close> (one row per Pauli, one column per qubit) and the sign column \<open>S\<close>
  form a tableau. Entries outside the shape are never read by the code.
\<close>

type_synonym bmat = "nat \<Rightarrow> nat \<Rightarrow> bool"

record tableau =
  tX :: bmat
  tZ :: bmat
  tS :: "nat \<Rightarrow> bool"

definition mat_of :: "bool list list \<Rightarrow> bmat" where
  "mat_of rows i j = (i < length rows \<and> j < length (rows ! i) \<and> rows ! i ! j)"

fun foldE :: "('a \<Rightarrow> 's \<Rightarrow> error + 's) \<Rightarrow> 'a list \<Rightarrow> 's \<Rightarrow> error + 's" where
  "foldE f [] s = Inr s"
| "foldE f (x # xs) s = (case f x s of Inl e \<Rightarrow> Inl e | Inr s' \<Rightarrow> foldE f xs s')"

text \<open>
  \<^verbatim>\<open>def g(x1, z1, x2, z2):
      if not x1 and not z1: return 0
      if x1 and z1: return z2 - x2
      if x1 and not z1: return z2 * (2*x2 - 1)
      if z1 and not x1: return x2 * (1 - 2*z2)\<close>
\<close>

definition g_fn :: "int \<Rightarrow> int \<Rightarrow> int \<Rightarrow> int \<Rightarrow> int" where
  "g_fn x1 z1 x2 z2 =
     (if x1 = 0 \<and> z1 = 0 then 0
      else if x1 \<noteq> 0 \<and> z1 \<noteq> 0 then z2 - x2
      else if x1 \<noteq> 0 \<and> z1 = 0 then z2 * (2 * x2 - 1)
      else x2 * (1 - 2 * z2))"

text \<open>The quantity \<open>t\<close> of \<open>sweep_rows(X, Z, S, i, j)\<close>.\<close>

definition sweep_t :: "nat \<Rightarrow> tableau \<Rightarrow> nat \<Rightarrow> nat \<Rightarrow> int" where
  "sweep_t m T i j =
     2 * of_bool (tS T j) + 2 * of_bool (tS T i) +
     sum_list (map (\<lambda>k. g_fn (of_bool (tX T i k)) (of_bool (tZ T i k))
                              (of_bool (tX T j k)) (of_bool (tZ T j k))) [0..<m])"

definition xor_rows :: "nat \<Rightarrow> nat \<Rightarrow> tableau \<Rightarrow> tableau" where
  \<comment> \<open>\<open>X[[j], :] = lx(X[[j], :], X[[i], :])\<close> and the same on \<open>Z\<close>\<close>
  "xor_rows i j T =
     T\<lparr>tX := (tX T)(j := \<lambda>k. tX T j k \<noteq> tX T i k),
       tZ := (tZ T)(j := \<lambda>k. tZ T j k \<noteq> tZ T i k)\<rparr>"

definition sweep_rows :: "nat \<Rightarrow> tableau \<Rightarrow> nat \<Rightarrow> nat \<Rightarrow> error + tableau" where
  "sweep_rows m T i j =
     (let t = sweep_t m T i j in
      if t mod 4 = 0 then Inr (xor_rows i j (T\<lparr>tS := (tS T)(j := False)\<rparr>))
      else if t mod 4 = 2 then Inr (xor_rows i j (T\<lparr>tS := (tS T)(j := True)\<rparr>))
      else Inl SweepRowsError)"

text \<open>The Clifford updates \<open>h\<close>, \<open>s\<close>, \<open>cnot\<close>, \<open>cz\<close> of the tableau (all rows at once).\<close>

definition h_op :: "nat \<Rightarrow> tableau \<Rightarrow> tableau" where
  "h_op i T =
     \<lparr>tX = (\<lambda>a b. if b = i then tZ T a i else tX T a b),
      tZ = (\<lambda>a b. if b = i then tX T a i else tZ T a b),
      tS = (\<lambda>a. tS T a \<noteq> (tX T a i \<and> tZ T a i))\<rparr>"

definition s_op :: "nat \<Rightarrow> tableau \<Rightarrow> tableau" where
  "s_op i T =
     \<lparr>tX = tX T,
      tZ = (\<lambda>a b. if b = i then tZ T a i \<noteq> tX T a i else tZ T a b),
      tS = (\<lambda>a. tS T a \<noteq> (tX T a i \<and> tZ T a i))\<rparr>"

definition cnot :: "nat \<Rightarrow> nat \<Rightarrow> tableau \<Rightarrow> tableau" where
  "cnot i j T =
     (let X' = (\<lambda>a b. if b = j then tX T a j \<noteq> tX T a i else tX T a b) in
      \<lparr>tX = X',
       tZ = (\<lambda>a b. if b = i then tZ T a i \<noteq> tZ T a j else tZ T a b),
       tS = (\<lambda>a. tS T a \<noteq> (((tX T a j \<noteq> tZ T a i) \<noteq> True) \<and> (tX T a i \<and> tZ T a j)))\<rparr>)"

definition cz :: "nat \<Rightarrow> nat \<Rightarrow> tableau \<Rightarrow> tableau" where
  "cz i j T = h_op j (cnot i j (h_op j T))"

definition swp :: "nat \<Rightarrow> nat \<Rightarrow> nat \<Rightarrow> nat" where
  "swp i k a = (if a = i then k else if a = k then i else a)"

definition swap_rows :: "nat \<Rightarrow> nat \<Rightarrow> tableau \<Rightarrow> tableau" where
  \<comment> \<open>\<open>X[[i, k], :] = X[[k, i], :]\<close>, and the same on \<open>Z\<close> and \<open>S\<close>\<close>
  "swap_rows i k T =
     \<lparr>tX = (\<lambda>a. tX T (swp i k a)), tZ = (\<lambda>a. tZ T (swp i k a)), tS = (\<lambda>a. tS T (swp i k a))\<rparr>"

definition swap_cols :: "nat \<Rightarrow> nat \<Rightarrow> tableau \<Rightarrow> tableau" where
  \<comment> \<open>\<open>X[:, [j, k]] = X[:, [k, j]]\<close>, and the same on \<open>Z\<close>\<close>
  "swap_cols j k T =
     T\<lparr>tX := (\<lambda>a b. tX T a (swp j k b)), tZ := (\<lambda>a b. tZ T a (swp j k b))\<rparr>"

text \<open>The state of \<open>sim_cliff_diag\<close>: the interim tableau \<open>X, Z, S\<close>, the copy \<open>X2, Z2, S2\<close>
  that holds the new Paulis, and the circuit \<open>qc\<close>.\<close>

record state =
  sT :: tableau
  sT2 :: tableau
  qc :: circuit

text \<open>The pivot search of both elimination loops:
  \<^verbatim>\<open>for i in range(k, X.shape[0]):
      for j in range(k, X.shape[1]):
          if X[i,j]: ...\<close>\<close>

definition find_pivot :: "bmat \<Rightarrow> nat \<Rightarrow> nat \<Rightarrow> nat \<Rightarrow> (nat \<times> nat) option" where
  "find_pivot M n m k = find (\<lambda>(i, j). M i j) (List.product [k..<n] [k..<m])"

text \<open>
  \<^verbatim>\<open>for l in range(X.shape[0]):
      if l == k: continue
      if X[l, k]: sweep_rows(X, Z, S, k, l)\<close>
  (\<open>Z[l, k]\<close> in the second loop: \<open>sel\<close> is the matrix that is tested).
\<close>

definition sweep_all :: "(tableau \<Rightarrow> bmat) \<Rightarrow> nat \<Rightarrow> nat \<Rightarrow> nat \<Rightarrow> tableau \<Rightarrow> error + tableau" where
  "sweep_all sel n m k T =
     foldE (\<lambda>l T. if l = k then Inr T
                  else if sel T l k then sweep_rows m T k l else Inr T) [0..<n] T"

text \<open>One iteration \<open>k\<close> of the loop "diagonalize X" (\<open>sel = tX\<close>) or "diagonalize Z"
  (\<open>sel = tZ\<close>); the second component is \<open>kx\<close> (\<open>kz\<close>).\<close>

definition elim_step ::
  "(tableau \<Rightarrow> bmat) \<Rightarrow> nat \<Rightarrow> nat \<Rightarrow> nat \<Rightarrow> state \<times> nat \<Rightarrow> error + state \<times> nat" where
  "elim_step sel n m k = (\<lambda>(st, kk).
     case find_pivot (sel (sT st)) n m k of
       None \<Rightarrow> Inr (st, kk)
     | Some (i, j) \<Rightarrow>
         (let T1 = (if i \<noteq> k then swap_rows i k (sT st) else sT st);
              st2 = (if j \<noteq> k
                     then \<lparr>sT = swap_cols j k T1, sT2 = swap_cols j k (sT2 st),
                           qc = qc st @ [CX_gate j k, CX_gate k j, CX_gate j k]\<rparr>
                     else st\<lparr>sT := T1\<rparr>)
          in case sweep_all sel n m k (sT st2) of
               Inl e \<Rightarrow> Inl e
             | Inr T3 \<Rightarrow> Inr (st2\<lparr>sT := T3\<rparr>, k + 1)))"

text \<open>"swap diag Z to X": \<open>for j in range(kx, kz): h(X, Z, S, j); h(X2, Z2, S2, j); qc.h(j)\<close>\<close>

definition h_step :: "nat \<Rightarrow> state \<Rightarrow> state" where
  "h_step j st = \<lparr>sT = h_op j (sT st), sT2 = h_op j (sT2 st), qc = qc st @ [H_gate j]\<rparr>"

text \<open>"eliminate off-diag X": the body of
  \<open>for i in range(kz): for j in range(kz, X.shape[1]): if X[i,j]: ...\<close>\<close>

definition cnot_step :: "nat \<times> nat \<Rightarrow> state \<Rightarrow> state" where
  "cnot_step = (\<lambda>(i, j) st.
     if tX (sT st) i j
     then \<lparr>sT = cnot i j (sT st), sT2 = cnot i j (sT2 st), qc = qc st @ [CX_gate i j]\<rparr>
     else st)"

text \<open>"eliminate off-diag Z": the body of
  \<open>for i in range(1, kz): for j in range(i): if Z[i, j]: ...\<close>\<close>

definition cz_step :: "nat \<times> nat \<Rightarrow> state \<Rightarrow> state" where
  "cz_step = (\<lambda>(i, j) st.
     if tZ (sT st) i j
     then \<lparr>sT = cz i j (sT st), sT2 = cz i j (sT2 st),
           qc = qc st @ [H_gate j, CX_gate i j, H_gate j]\<rparr>
     else st)"

definition lower_pairs :: "nat \<Rightarrow> (nat \<times> nat) list" where
  "lower_pairs kz = concat (map (\<lambda>i. map (Pair i) [0..<i]) [1..<kz])"

text \<open>The last loop: \<open>for i in range(kz): if Z[i, i]: s(..., i) ...; h(..., i) ...\<close>\<close>

definition s_step :: "nat \<Rightarrow> state \<Rightarrow> state" where
  "s_step i st =
     (if tZ (sT st) i i
      then \<lparr>sT = s_op i (sT st), sT2 = s_op i (sT2 st), qc = qc st @ [S_gate i]\<rparr>
      else st)"

definition final_step :: "nat \<Rightarrow> state \<Rightarrow> state" where
  "final_step i st = h_step i (s_step i st)"

text \<open>
  The cleanup:
  \<^verbatim>\<open>last_h = {i: None for i in range(q.size)}
  h_to_remove = []
  for i, (g, qubits, _) in enumerate(qc.data):
      if g.name == 'h':
          if last_h[qubits[0].index] is not None:
              h_to_remove.append(last_h[qubits[0].index])
              h_to_remove.append(i)
          else:
              last_h[qubits[0].index] = i
      else:
          for qubit in qubits:
              last_h[qubit.index] = None
  h_to_remove.sort()
  for i in h_to_remove[::-1]:
      qc.data.pop(i)\<close>
\<close>

fun scan_step :: "nat \<times> gate \<Rightarrow> (nat \<Rightarrow> nat option) \<times> nat list \<Rightarrow> (nat \<Rightarrow> nat option) \<times> nat list" where
  "scan_step (i, H_gate q) (last_h, h_to_remove) =
     (case last_h q of
        Some a \<Rightarrow> (last_h, h_to_remove @ [a, i])
      | None \<Rightarrow> (last_h(q := Some i), h_to_remove))"
| "scan_step (i, g) (last_h, h_to_remove) =
     (fold (\<lambda>q lh. lh(q := None)) (qubits g) last_h, h_to_remove)"

definition h_to_remove :: "circuit \<Rightarrow> nat list" where
  "h_to_remove c = snd (fold scan_step (zip [0..<length c] c) (\<lambda>q. None, []))"

definition pop :: "nat \<Rightarrow> 'a list \<Rightarrow> error + 'a list" where
  "pop i xs = (if i < length xs then Inr (take i xs @ drop (Suc i) xs) else Inl IndexError)"

definition cleanup :: "circuit \<Rightarrow> error + circuit" where
  "cleanup c = foldE pop (rev (sort (h_to_remove c))) c"

definition any_true :: "bmat \<Rightarrow> nat \<Rightarrow> nat \<Rightarrow> bool" where
  "any_true M n m = list_ex (\<lambda>i. list_ex (\<lambda>j. M i j) [0..<m]) [0..<n]"

definition new_pauli :: "tableau \<Rightarrow> nat \<Rightarrow> nat \<Rightarrow> pauli" where
  \<comment> \<open>\<open>Pauli((Z2[i], X2[i], 2 if S2[i] else 0))\<close>\<close>
  "new_pauli T m i =
     \<lparr>px = map (tX T i) [0..<m], pz = map (tZ T i) [0..<m], phase = (if tS T i then 2 else 0)\<rparr>"

text \<open>The gate-emitting part of \<open>sim_cliff_diag\<close>, after the two elimination loops.\<close>

definition clifford_stages :: "nat \<Rightarrow> nat \<Rightarrow> nat \<Rightarrow> state \<Rightarrow> state" where
  "clifford_stages m kx kz st =
     fold final_step [0..<kz]
       (fold cz_step (lower_pairs kz)
         (fold cnot_step (List.product [0..<kz] [kz..<m])
           (fold h_step [kx..<kz] st)))"

text \<open>
  \<open>sim_cliff_diag(paulis)\<close>. \<open>np.linalg.matrix_rank\<close> is a floating-point library routine
  (a singular value decomposition): the model takes it as the parameter \<open>matrix_rank\<close>,
  applied to the rows of \<open>np.concatenate((X, Z), axis=1)\<close>. On Paulis without qubits
  that array has no columns, and \<open>np.linalg.matrix_rank\<close> raises.
\<close>

definition init_tableau :: "pauli list \<Rightarrow> tableau" where
  "init_tableau paulis =
     \<lparr>tX = mat_of (map px paulis), tZ = mat_of (map pz paulis), tS = (\<lambda>a. False)\<rparr>"

definition sim_cliff_diag ::
  "(bool list list \<Rightarrow> nat) \<Rightarrow> pauli list \<Rightarrow> error + circuit \<times> pauli list" where
  "sim_cliff_diag matrix_rank paulis =
     (case paulis of
        [] \<Rightarrow> Inl IndexError
      | p0 # rest \<Rightarrow>
          (let m = num_qubits p0;
               n = length paulis;
               T = init_tableau paulis;
               r = matrix_rank (map (\<lambda>p. px p @ pz p) paulis)
           in if m = 0 then Inl LinAlgError
              else
                case foldE (elim_step tX n m) [0..<r] (\<lparr>sT = T, sT2 = T, qc = []\<rparr>, 0) of
                  Inl e \<Rightarrow> Inl e
                | Inr (st1, kx) \<Rightarrow>
                    (case foldE (elim_step tZ n m) [kx..<r] (st1, kx) of
                       Inl e \<Rightarrow> Inl e
                     | Inr (st2, kz) \<Rightarrow>
                         (let st3 = clifford_stages m kx kz st2 in
                          case cleanup (qc st3) of
                            Inl e \<Rightarrow> Inl e
                          | Inr c \<Rightarrow>
                              if any_true (tX (sT st3)) n m then Inl FailedClifford
                              else if any_true (tX (sT2 st3)) n m then Inl TheoryOnly
                              else Inr (c, map (new_pauli (sT2 st3) m) [0..<n])))))"

section \<open>Step 3: circuits for the diagonal Paulis\<close>

text \<open>\<open>Pauli.to_label()\<close>: the phase prefix, then one letter per qubit, the highest qubit
  first.\<close>

definition pauli_char :: "bool \<times> bool \<Rightarrow> char" where
  "pauli_char = (\<lambda>(x, z). if x then (if z then CHR ''Y'' else CHR ''X'')
                            else (if z then CHR ''Z'' else CHR ''I''))"

definition to_label :: "pauli \<Rightarrow> string" where
  "to_label p =
     (if phase p mod 4 = 0 then [] else if phase p mod 4 = 1 then ''-i''
      else if phase p mod 4 = 2 then ''-'' else ''i'')
     @ rev (map pauli_char (zip (px p) (pz p)))"

text \<open>\<open>start[::-1].find('Z')\<close>, where \<open>'Z' in start\<close>.\<close>

definition rotating_qubit :: "string \<Rightarrow> nat" where
  "rotating_qubit start = length (takeWhile (\<lambda>c. c \<noteq> CHR ''Z'') (rev start))"

text \<open>The loop at a leaf of \<open>walk\<close>:
  \<^verbatim>\<open>for i, p in enumerate(diag_paulis):
      if p.primitive.to_label() == start:
          paulis_qc.rz(2*p.coeff, rotating_qubit)
          visited.append(i)\<close>\<close>

definition visit :: "string \<Rightarrow> nat \<times> pauli_op \<Rightarrow> nat list \<times> circuit \<Rightarrow> nat list \<times> circuit" where
  "visit start = (\<lambda>(i, p) (visited, c).
     if to_label (primitive p) = start
     then (visited @ [i], c @ [RZ_gate (2 * coeff p) (rotating_qubit start)])
     else (visited, c))"

text \<open>
  \<open>walk(start)\<close> returns \<open>visited\<close> and appends to \<open>paulis_qc\<close>, which the model passes
  in and returns. \<open>paulis_qc.data.pop()\<close> removes the last gate. The recursion is on
  \<open>num_qubits - len(start)\<close>; \<open>walk\<close> is only called from \<open>walk('')\<close>, where
  \<open>len(start) \<le> num_qubits\<close> always holds, so the last branch of the model (a longer
  \<open>start\<close>) is never taken.
\<close>

function walk :: "nat \<Rightarrow> pauli_op list \<Rightarrow> string \<Rightarrow> circuit \<Rightarrow> nat list \<times> circuit" where
  "walk nq diag_paulis start c =
     (if CHR ''Z'' \<in> set start then
        (if length start = nq then
           fold (visit start) (zip [0..<length diag_paulis] diag_paulis) ([], c)
         else if length start < nq then
           (case walk nq diag_paulis (CHR ''I'' # start) c of
              (visited, c1) \<Rightarrow>
                (case walk nq diag_paulis (CHR ''Z'' # start)
                        (c1 @ [CX_gate (length start) (rotating_qubit start)]) of
                   (visited_after_cnot, c2) \<Rightarrow>
                     if visited_after_cnot = [] then (visited, butlast c2)
                     else (visited @ visited_after_cnot,
                           c2 @ [CX_gate (length start) (rotating_qubit start)])))
         else ([], c))
      else if length start < nq then
        (case walk nq diag_paulis (CHR ''I'' # start) c of
           (visited, c1) \<Rightarrow>
             (case walk nq diag_paulis (CHR ''Z'' # start) c1 of
                (visited2, c2) \<Rightarrow> (visited @ visited2, c2)))
      else ([], c))"
  by pat_completeness auto
termination
  by (relation "measure (\<lambda>(nq, dp, start, c). nq - length start)") auto

text \<open>
  \<^verbatim>\<open>global_phase = sum([p.coeff for p in diag_paulis
                       if p.primitive.to_label() == 'I' * num_qubits])
  if global_phase:
      paulis_qc.p(-global_phase, 0); paulis_qc.x(0)
      paulis_qc.p(-global_phase, 0); paulis_qc.x(0)\<close>
\<close>

definition global_phase :: "nat \<Rightarrow> pauli_op list \<Rightarrow> real" where
  "global_phase nq diag_paulis =
     sum_list (map coeff
       (filter (\<lambda>p. to_label (primitive p) = replicate nq (CHR ''I'')) diag_paulis))"

definition walk_paulis :: "pauli_op list \<Rightarrow> error + circuit" where
  "walk_paulis diag_paulis =
     (case diag_paulis of
        [] \<Rightarrow> Inl IndexError
      | p0 # rest \<Rightarrow>
          (let nq = num_qubits (primitive p0);
               c = snd (walk nq diag_paulis [] []);
               gp = global_phase nq diag_paulis
           in if gp \<noteq> 0
              then (if nq = 0 then Inl CircuitError
                    else Inr (c @ [P_gate (- gp) 0, X_gate 0, P_gate (- gp) 0, X_gate 0]))
              else Inr c))"

section \<open>Step 4: Trotterization\<close>

text \<open>\<open>QuantumCircuit.inverse()\<close>: the gates in reverse order, each one inverted;
  \<open>compose\<close> appends the gates of its argument.\<close>

fun gate_inverse :: "gate \<Rightarrow> gate" where
  "gate_inverse (H_gate q) = H_gate q"
| "gate_inverse (S_gate q) = Sdg_gate q"
| "gate_inverse (Sdg_gate q) = S_gate q"
| "gate_inverse (CX_gate c t) = CX_gate c t"
| "gate_inverse (RZ_gate a q) = RZ_gate (- a) q"
| "gate_inverse (P_gate a q) = P_gate (- a) q"
| "gate_inverse (X_gate q) = X_gate q"

definition inverse_circuit :: "circuit \<Rightarrow> circuit" where
  "inverse_circuit c = map gate_inverse (rev c)"

text \<open>
  \<^verbatim>\<open>new_paulis = [PauliOp(Pauli((dp.z, dp.x, 0)), (p.coeff/n) * (1 if dp.phase == 0 else -1))
                for p, dp in zip(paulis, diag_paulis)]\<close>
\<close>

definition new_paulis :: "nat \<Rightarrow> pauli_op list \<Rightarrow> pauli list \<Rightarrow> pauli_op list" where
  "new_paulis n paulis diag_paulis =
     map (\<lambda>(p, dp). \<lparr>primitive = \<lparr>px = px dp, pz = pz dp, phase = 0\<rparr>,
                     coeff = (coeff p / real n) * (if phase dp = 0 then 1 else - 1)\<rparr>)
         (zip paulis diag_paulis)"

text \<open>The body of \<open>for paulis in commuting_subsets\<close>: the circuit of one group.\<close>

definition group_circuit ::
  "(bool list list \<Rightarrow> nat) \<Rightarrow> nat \<Rightarrow> pauli_op list \<Rightarrow> error + circuit" where
  "group_circuit matrix_rank n paulis =
     (case sim_cliff_diag matrix_rank (map primitive paulis) of
        Inl e \<Rightarrow> Inl e
      | Inr (diag_qc, diag_paulis) \<Rightarrow>
          (case walk_paulis (new_paulis n paulis diag_paulis) of
             Inl e \<Rightarrow> Inl e
           | Inr diag_paulis_qc \<Rightarrow>
               Inr (diag_qc @ diag_paulis_qc @ inverse_circuit diag_qc)))"

fun group_circuits ::
  "(bool list list \<Rightarrow> nat) \<Rightarrow> nat \<Rightarrow> pauli_op list list \<Rightarrow> error + circuit list" where
  "group_circuits matrix_rank n [] = Inr []"
| "group_circuits matrix_rank n (paulis # rest) =
     (case group_circuit matrix_rank n paulis of
        Inl e \<Rightarrow> Inl e
      | Inr c \<Rightarrow>
          (case group_circuits matrix_rank n rest of
             Inl e \<Rightarrow> Inl e
           | Inr cs \<Rightarrow> Inr (c # cs)))"

definition group_order :: "nat list" where
  "group_order = [6, 7, 9, 1, 11, 18, 4, 13, 12, 0, 19, 15, 17, 3, 5, 2, 20, 10, 8, 16, 14]"

text \<open>
  \<^verbatim>\<open>master_circuit = QuantumCircuit(QuantumRegister(len(circuits[0].qubits), 'q'))
  for _ in range(n):
      for i in [6, 7, 9, ...]:
          master_circuit = master_circuit.compose(circuits[i])\<close>
\<close>

definition compose_group :: "circuit list \<Rightarrow> nat \<Rightarrow> circuit \<Rightarrow> error + circuit" where
  "compose_group circuits i master =
     (if i < length circuits then Inr (master @ circuits ! i) else Inl IndexError)"

definition master_circuit :: "nat \<Rightarrow> circuit list \<Rightarrow> error + circuit" where
  "master_circuit n circuits =
     (if circuits = [] then Inl IndexError
      else foldE (\<lambda>u. foldE (compose_group circuits) group_order) [0..<n] [])"

text \<open>The notebook from the lines of the input file to \<open>master_circuit\<close>, with \<open>n = 2\<close>.
  The matrix \<open>H\<close>, its exponential and the two printed diagnostics are floating-point
  computations of numpy, scipy and qiskit and are not part of the model.\<close>

definition notebook ::
  "(string \<Rightarrow> real option) \<Rightarrow> (bool list list \<Rightarrow> nat) \<Rightarrow> string list \<Rightarrow> error + circuit" where
  "notebook float_of matrix_rank lines =
     (case read_paulis float_of lines of
        Inl e \<Rightarrow> Inl e
      | Inr paulis \<Rightarrow>
          (case group_circuits matrix_rank 2 (commuting_subsets paulis) of
             Inl e \<Rightarrow> Inl e
           | Inr circuits \<Rightarrow> master_circuit 2 circuits))"

section \<open>Concrete inputs used in the examples\<close>

definition mk_pauli :: "string \<Rightarrow> pauli" where
  \<comment> \<open>the value of \<open>Pauli(s)\<close> for a plain label \<open>s\<close>\<close>
  "mk_pauli s =
     \<lparr>px = rev (map (\<lambda>c. c = CHR ''X'' \<or> c = CHR ''Y'') s),
      pz = rev (map (\<lambda>c. c = CHR ''Z'' \<or> c = CHR ''Y'') s),
      phase = 0\<rparr>"

definition mk_op :: "string \<Rightarrow> real \<Rightarrow> pauli_op" where
  "mk_op s c = \<lparr>primitive = mk_pauli s, coeff = c\<rparr>"

definition float_example :: "string \<Rightarrow> real option" where
  \<comment> \<open>\<open>float\<close> on the two numerals of the example lines\<close>
  "float_example s = (if s = ''2'' then Some 2 else if s = ''3.0'' then Some 3 else None)"

definition rank_rows :: "bool list list \<Rightarrow> nat" where
  \<comment> \<open>the rank of a matrix whose rows are linearly independent\<close>
  "rank_rows M = length M"

definition example_groups :: "pauli_op list list" where
  "example_groups = map (\<lambda>i. [mk_op ''Y'' (real i)]) [1..<22]"

section \<open>Predicates used in the statements\<close>

definition pairwise_commuting :: "pauli_op list \<Rightarrow> bool" where
  "pairwise_commuting grp =
     (\<forall>p \<in> set grp. \<forall>q \<in> set grp. commutes (primitive p) (primitive q))"

text \<open>A line of the input file in the format of the notebook: after \<open>strip()\<close> it splits
  on single spaces into four fields, the second a number and the fourth a Pauli string.\<close>

definition well_formed :: "(string \<Rightarrow> real option) \<Rightarrow> string \<Rightarrow> bool" where
  "well_formed float_of l =
     (\<exists>sign prefactor u s. split_sp (strip l) = [sign, prefactor, u, s] \<and>
        (\<exists>P. pauli_of_label s = Inr P) \<and> (\<exists>c. float_of prefactor = Some c))"

primrec par :: "nat \<Rightarrow> (nat \<Rightarrow> bool) \<Rightarrow> bool" where
  "par 0 f = False"
| "par (Suc m) f = (par m f \<noteq> f m)"

definition anti :: "nat \<Rightarrow> tableau \<Rightarrow> nat \<Rightarrow> nat \<Rightarrow> bool" where
  "anti m T i j = par m (\<lambda>k. (tX T i k \<and> tZ T j k) \<noteq> (tZ T i k \<and> tX T j k))"

definition comm_rows :: "nat \<Rightarrow> nat \<Rightarrow> tableau \<Rightarrow> bool" where
  "comm_rows n m T = (\<forall>i < n. \<forall>j < n. \<not> anti m T i j)"

type_synonym rowvec = "(nat \<Rightarrow> bool) \<times> (nat \<Rightarrow> bool)"

definition rowv :: "tableau \<Rightarrow> nat \<Rightarrow> rowvec" where
  "rowv T a = (tX T a, tZ T a)"

definition vxor :: "rowvec \<Rightarrow> rowvec \<Rightarrow> rowvec" where
  "vxor u v = (\<lambda>k. fst u k \<noteq> fst v k, \<lambda>k. snd u k \<noteq> snd v k)"

definition vzero :: rowvec where
  "vzero = (\<lambda>k. False, \<lambda>k. False)"

inductive_set rspan :: "nat \<Rightarrow> tableau \<Rightarrow> rowvec set" for n :: nat and T :: tableau where
  zero: "vzero \<in> rspan n T"
| row: "a < n \<Longrightarrow> rowv T a \<in> rspan n T"
| add: "u \<in> rspan n T \<Longrightarrow> v \<in> rspan n T \<Longrightarrow> vxor u v \<in> rspan n T"

definition in_span :: "nat \<Rightarrow> tableau \<Rightarrow> tableau \<Rightarrow> bool" where
  "in_span n T2 T = (\<forall>a < n. rowv T2 a \<in> rspan n T)"

text \<open>The tableau after the pivot at \<open>(i, j)\<close> was moved to \<open>(k, k)\<close> and row \<open>k\<close> was
  added to every other row with a one in column \<open>k\<close> of \<open>sel\<close>.\<close>

definition pivoted ::
  "(tableau \<Rightarrow> bmat) \<Rightarrow> nat \<Rightarrow> nat \<Rightarrow> nat \<Rightarrow> nat \<Rightarrow> tableau \<Rightarrow> tableau \<Rightarrow> bool" where
  "pivoted sel n i j k T T' =
     ((\<forall>a b. tX T' a b =
         (if a < n \<and> a \<noteq> k \<and> sel T (swp i k a) j
          then tX T (swp i k a) (swp j k b) \<noteq> tX T i (swp j k b)
          else tX T (swp i k a) (swp j k b))) \<and>
      (\<forall>a b. tZ T' a b =
         (if a < n \<and> a \<noteq> k \<and> sel T (swp i k a) j
          then tZ T (swp i k a) (swp j k b) \<noteq> tZ T i (swp j k b)
          else tZ T (swp i k a) (swp j k b))))"

definition ublock :: "bmat \<Rightarrow> nat \<Rightarrow> nat \<Rightarrow> nat \<Rightarrow> bool" where
  "ublock M n a k = (\<forall>i < n. \<forall>j. a \<le> j \<and> j < k \<longrightarrow> M i j = (i = j))"

definition xinv :: "nat \<Rightarrow> nat \<Rightarrow> nat \<Rightarrow> bmat \<Rightarrow> bool" where
  "xinv n m kx X = (ublock X n 0 kx \<and> (\<forall>i. kx \<le> i \<and> i < n \<longrightarrow> (\<forall>j < m. \<not> X i j)))"

definition loop_inv ::
  "(tableau \<Rightarrow> bmat) \<Rightarrow> nat \<Rightarrow> nat \<Rightarrow> nat \<Rightarrow> (tableau \<Rightarrow> bool) \<Rightarrow> nat \<Rightarrow> state \<times> nat \<Rightarrow> bool" where
  "loop_inv sel n m a extra k s =
     (case s of (st, kk) \<Rightarrow>
        comm_rows n m (sT st) \<and> in_span n (sT2 st) (sT st) \<and> extra (sT st) \<and>
        a \<le> kk \<and> kk \<le> k \<and> kk \<le> n \<and> kk \<le> m \<and> ublock (sel (sT st)) n a kk \<and>
        (kk < k \<longrightarrow> find_pivot (sel (sT st)) n m kk = None))"

definition post_loops :: "nat \<Rightarrow> nat \<Rightarrow> nat \<Rightarrow> nat \<Rightarrow> tableau \<Rightarrow> bool" where
  "post_loops n m kx kz T =
     (kx \<le> kz \<and> kz \<le> n \<and> kz \<le> m \<and> comm_rows n m T \<and> xinv n m kx (tX T) \<and>
      ublock (tZ T) n kx kz \<and> find_pivot (tZ T) n m kz = None)"

definition inv4 :: "nat \<Rightarrow> nat \<Rightarrow> nat \<Rightarrow> tableau \<Rightarrow> bool" where
  "inv4 n m kz T =
     (kz \<le> n \<and> kz \<le> m \<and> comm_rows n m T \<and>
      (\<forall>a < n. \<forall>b < kz. tX T a b = (a = b)) \<and>
      (\<forall>a. kz \<le> a \<and> a < n \<longrightarrow> (\<forall>b < m. \<not> tX T a b \<and> \<not> tZ T a b)))"

definition inv5 :: "nat \<Rightarrow> nat \<Rightarrow> nat \<Rightarrow> tableau \<Rightarrow> bool" where
  "inv5 n m kz T =
     (kz \<le> n \<and> kz \<le> m \<and> comm_rows n m T \<and>
      (\<forall>a < n. \<forall>b < m. tX T a b = (a = b \<and> b < kz)) \<and>
      (\<forall>a. kz \<le> a \<and> a < n \<longrightarrow> (\<forall>b < m. \<not> tZ T a b)))"

definition inv6 :: "nat \<Rightarrow> nat \<Rightarrow> nat \<Rightarrow> tableau \<Rightarrow> bool" where
  "inv6 n m kz T =
     (kz \<le> n \<and> kz \<le> m \<and>
      (\<forall>a < n. \<forall>b < m. tX T a b = (a = b \<and> b < kz)) \<and>
      (\<forall>a < n. \<forall>b < kz. a \<noteq> b \<longrightarrow> \<not> tZ T a b))"

definition inv7 :: "nat \<Rightarrow> nat \<Rightarrow> nat \<Rightarrow> nat \<Rightarrow> tableau \<Rightarrow> bool" where
  "inv7 n m kz i T =
     ((\<forall>a < n. \<forall>b < m. tX T a b = (a = b \<and> i \<le> b \<and> b < kz)) \<and>
      (\<forall>a < n. \<forall>b. i \<le> b \<and> b < kz \<longrightarrow> a \<noteq> b \<longrightarrow> \<not> tZ T a b))"

text \<open>The number of pivots that the two elimination loops find when the bound \<open>r\<close> does
  not cut them short (no pivot can lie below the last row, so the number of rows is a
  bound that never does).\<close>

definition elim_pivots :: "pauli list \<Rightarrow> nat" where
  "elim_pivots paulis =
     (let n = length paulis; m = num_qubits (hd paulis); T = init_tableau paulis in
      case foldE (elim_step tX n m) [0..<n] (\<lparr>sT = T, sT2 = T, qc = []\<rparr>, 0) of
        Inl e \<Rightarrow> 0
      | Inr (st1, kx) \<Rightarrow>
          (case foldE (elim_step tZ n m) [kx..<n] (st1, kx) of
             Inl e \<Rightarrow> 0
           | Inr (st2, kz) \<Rightarrow> kz))"

text \<open>The gates of the diagonalizing circuit: \<open>h\<close> and \<open>s\<close> on a qubit of the register and
  \<open>cx\<close> on two different qubits of the register.\<close>

definition diag_gate :: "nat \<Rightarrow> gate \<Rightarrow> bool" where
  "diag_gate m g =
     (case g of H_gate q \<Rightarrow> q < m | S_gate q \<Rightarrow> q < m
              | CX_gate c t \<Rightarrow> c < m \<and> t < m \<and> c \<noteq> t | _ \<Rightarrow> False)"

text \<open>For every qubit, the number of \<open>h\<close> gates on it since the last other gate on it.\<close>

fun hcount_step :: "gate \<Rightarrow> (nat \<Rightarrow> nat) \<Rightarrow> (nat \<Rightarrow> nat)" where
  "hcount_step (H_gate q) cnt = cnt(q := Suc (cnt q))"
| "hcount_step g cnt = fold (\<lambda>q c. c(q := 0)) (qubits g) cnt"

definition hcount :: "circuit \<Rightarrow> nat \<Rightarrow> nat" where
  "hcount c = fold hcount_step c (\<lambda>q. 0)"

text \<open>No qubit ever sees three \<open>h\<close> gates in a row.\<close>

definition h_runs_ok :: "circuit \<Rightarrow> bool" where
  "h_runs_ok c = (\<forall>k \<le> length c. \<forall>q. hcount (take k c) q \<le> 2)"

definition circ_inv :: "nat \<Rightarrow> (nat \<Rightarrow> nat) \<Rightarrow> circuit \<Rightarrow> bool" where
  "circ_inv m B c = ((\<forall>g \<in> set c. diag_gate m g) \<and> h_runs_ok c \<and> (\<forall>q. hcount c q \<le> B q))"

definition scan :: "circuit \<Rightarrow> (nat \<Rightarrow> nat option) \<times> nat list" where
  "scan c = fold scan_step (zip [0..<length c] c) (\<lambda>q. None, [])"

text \<open>What the scan has recorded after a prefix \<open>c\<close> in which no qubit saw three \<open>h\<close>
  gates in a row: the indices to remove are distinct and in range; a qubit with no pending
  \<open>h\<close> has no entry in \<open>last_h\<close>; a qubit with one pending \<open>h\<close> has the index of that gate
  in \<open>last_h\<close>, the gate is not removed, and no later gate touches the qubit.\<close>

definition scan_inv :: "circuit \<Rightarrow> (nat \<Rightarrow> nat option) \<times> nat list \<Rightarrow> bool" where
  "scan_inv c s =
     (case s of (lh, rem) \<Rightarrow>
        distinct rem \<and> (\<forall>a \<in> set rem. a < length c) \<and>
        (\<forall>q. hcount c q = 0 \<longrightarrow> lh q = None) \<and>
        (\<forall>q. hcount c q = 1 \<longrightarrow>
           (\<exists>a. lh q = Some a \<and> a < length c \<and> c ! a = H_gate q \<and> a \<notin> set rem \<and>
                (\<forall>b. a < b \<and> b < length c \<longrightarrow> q \<notin> set (qubits (c ! b))))))"

definition rank_one :: "bool list list \<Rightarrow> nat" where
  \<comment> \<open>the rank of the two equal rows \<open>11\<close>, \<open>11\<close> of the example\<close>
  "rank_one M = 1"

text \<open>
  A state of the register gives a complex amplitude to every assignment of bits to the
  qubits. \<open>apply_gate g\<close> is the action of the unitary of the gate \<open>g\<close> on a state (the
  standard matrices of the gates, as in qiskit), and \<open>run c\<close> is the operator of the
  circuit \<open>c\<close>: its gates applied in order.
\<close>

type_synonym qstate = "(nat \<Rightarrow> bool) \<Rightarrow> complex"

fun apply_gate :: "gate \<Rightarrow> qstate \<Rightarrow> qstate" where
  "apply_gate (H_gate q) psi =
     (\<lambda>b. (psi (b(q := False)) + (if b q then - 1 else 1) * psi (b(q := True)))
          / complex_of_real (sqrt 2))"
| "apply_gate (S_gate q) psi = (\<lambda>b. (if b q then \<i> else 1) * psi b)"
| "apply_gate (Sdg_gate q) psi = (\<lambda>b. (if b q then - \<i> else 1) * psi b)"
| "apply_gate (CX_gate c t) psi = (\<lambda>b. psi (b(t := (b t \<noteq> b c))))"
| "apply_gate (RZ_gate a q) psi = (\<lambda>b. (if b q then cis (a / 2) else cis (- a / 2)) * psi b)"
| "apply_gate (P_gate a q) psi = (\<lambda>b. (if b q then cis a else 1) * psi b)"
| "apply_gate (X_gate q) psi = (\<lambda>b. psi (b(q := \<not> b q)))"

definition run :: "circuit \<Rightarrow> qstate \<Rightarrow> qstate" where
  "run c psi = fold apply_gate c psi"

text \<open>The value of \<open>qc\<close> when \<open>sim_cliff_diag\<close> reaches its cleanup.\<close>

definition built_circuit :: "(bool list list \<Rightarrow> nat) \<Rightarrow> pauli list \<Rightarrow> error + circuit" where
  "built_circuit matrix_rank paulis =
     (case paulis of
        [] \<Rightarrow> Inl IndexError
      | p0 # rest \<Rightarrow>
          (let m = num_qubits p0;
               n = length paulis;
               T = init_tableau paulis;
               r = matrix_rank (map (\<lambda>p. px p @ pz p) paulis)
           in if m = 0 then Inl LinAlgError
              else
                case foldE (elim_step tX n m) [0..<r] (\<lparr>sT = T, sT2 = T, qc = []\<rparr>, 0) of
                  Inl e \<Rightarrow> Inl e
                | Inr (st1, kx) \<Rightarrow>
                    (case foldE (elim_step tZ n m) [kx..<r] (st1, kx) of
                       Inl e \<Rightarrow> Inl e
                     | Inr (st2, kz) \<Rightarrow> Inr (qc (clifford_stages m kx kz st2)))))"

text \<open>\<open>h_to_remove\<close> is a list of pairs \<open>last_h, i\<close>: two \<open>h\<close> gates on one qubit with no
  gate on that qubit between them.\<close>

definition h_pairs :: "circuit \<Rightarrow> nat list \<Rightarrow> bool" where
  "h_pairs c rem =
     (even (length rem) \<and>
      (\<forall>k. 2 * k + 1 < length rem \<longrightarrow>
         (\<exists>q. rem ! (2 * k) < rem ! (2 * k + 1) \<and> rem ! (2 * k + 1) < length c \<and>
              c ! (rem ! (2 * k)) = H_gate q \<and> c ! (rem ! (2 * k + 1)) = H_gate q \<and>
              (\<forall>j. rem ! (2 * k) < j \<and> j < rem ! (2 * k + 1) \<longrightarrow> q \<notin> set (qubits (c ! j))))))"

section \<open>The rank of the symplectic matrix\<close>

text \<open>Vectors of reals indexed by the columns of a matrix: functions with the pointwise
  operations.\<close>

instantiation "fun" :: (type, zero) zero
begin
definition zero_fun_def: "0 = (\<lambda>x. 0)"
instance ..
end

instantiation "fun" :: (type, plus) plus
begin
definition plus_fun_def: "f + g = (\<lambda>x. f x + g x)"
instance ..
end

instance "fun" :: (type, ab_group_add) ab_group_add
  by standard (simp_all add: fun_eq_iff zero_fun_def plus_fun_def fun_Compl_def fun_diff_def)

instantiation "fun" :: (type, real_vector) real_vector
begin
definition scaleR_fun_def: "r *\<^sub>R f = (\<lambda>x. r *\<^sub>R f x)"
instance
  by standard (simp_all add: fun_eq_iff plus_fun_def scaleR_fun_def scaleR_add_right scaleR_add_left)
end

text \<open>
  \<open>np.linalg.matrix_rank\<close> computes, in floating point, the rank of its argument over
  the reals (the boolean entries are read as \<open>0\<close> and \<open>1\<close>). \<open>exact_rank\<close> is that rank:
  the dimension of the span of the rows.
\<close>

definition row_vec :: "bool list \<Rightarrow> nat \<Rightarrow> real" where
  "row_vec r j = (if j < length r \<and> r ! j then 1 else 0)"

definition exact_rank :: "bool list list \<Rightarrow> nat" where
  "exact_rank M = dim (row_vec ` set M)"

text \<open>Row \<open>i\<close> of \<open>np.concatenate((X, Z), axis=1)\<close> as a vector of reals.\<close>

definition tvec :: "nat \<Rightarrow> tableau \<Rightarrow> nat \<Rightarrow> nat \<Rightarrow> real" where
  "tvec m M i j =
     (if j < m then of_bool (tX M i j) else if j < 2 * m then of_bool (tZ M i (j - m)) else 0)"

text \<open>Every row of \<open>T\<close> is a sum modulo 2 of rows of \<open>M\<close>, with the columns of \<open>M\<close> read in
  another order.\<close>

definition rows_from :: "nat \<Rightarrow> nat \<Rightarrow> tableau \<Rightarrow> tableau \<Rightarrow> bool" where
  "rows_from n m M T =
     (\<exists>\<sigma>. (\<forall>j < m. \<sigma> j < m) \<and>
          (\<forall>a < n. \<exists>u \<in> rspan n M. \<forall>j < m. tX T a j = fst u (\<sigma> j) \<and> tZ T a j = snd u (\<sigma> j)))"

text \<open>An input file of 21 lines: 21 Pauli strings on 10 qubits that pairwise anticommute
  (the Jordan-Wigner strings of 20 Majorana operators and their product), so that the
  greedy grouping puts each term in a group of its own.\<close>

definition example_labels :: "string list" where
  "example_labels =
     [''IIIIIIIIIX'', ''IIIIIIIIIY'', ''IIIIIIIIXZ'', ''IIIIIIIIYZ'', ''IIIIIIIXZZ'',
      ''IIIIIIIYZZ'', ''IIIIIIXZZZ'', ''IIIIIIYZZZ'', ''IIIIIXZZZZ'', ''IIIIIYZZZZ'',
      ''IIIIXZZZZZ'', ''IIIIYZZZZZ'', ''IIIXZZZZZZ'', ''IIIYZZZZZZ'', ''IIXZZZZZZZ'',
      ''IIYZZZZZZZ'', ''IXZZZZZZZZ'', ''IYZZZZZZZZ'', ''XZZZZZZZZZ'', ''YZZZZZZZZZ'',
      ''ZZZZZZZZZZ'']"

definition example_lines :: "string list" where
  "example_lines = map (\<lambda>s. ''+ 2 * '' @ s) example_labels"

text \<open>The gates of the circuit of the diagonal Paulis: \<open>rz\<close>, \<open>p\<close> and \<open>x\<close> on one qubit
  and \<open>cx\<close> on two different qubits.\<close>

fun walk_gate :: "gate \<Rightarrow> bool" where
  "walk_gate (RZ_gate a q) = True"
| "walk_gate (P_gate a q) = True"
| "walk_gate (X_gate q) = True"
| "walk_gate (CX_gate c t) = (c \<noteq> t)"
| "walk_gate g = False"

section \<open>The greedy grouping\<close>

lemma commutes_sym: "commutes p q \<Longrightarrow> commutes q p"
  by (simp add: commutes_def)

lemma commutes_refl: "commutes p p"
  by (simp add: commutes_def)

lemma pairwise_commuting_snoc:
  "pairwise_commuting grp \<Longrightarrow> \<forall>q \<in> set grp. commutes (primitive p) (primitive q)
   \<Longrightarrow> pairwise_commuting (grp @ [p])"
  by (auto simp: pairwise_commuting_def commutes_refl dest: commutes_sym)

lemma add_pauli_mset: "mset (concat (add_pauli p gs)) = mset (concat gs) + {#p#}"
  by (induction gs) auto

lemma add_pauli_nonempty: "\<forall>g \<in> set gs. g \<noteq> [] \<Longrightarrow> \<forall>g \<in> set (add_pauli p gs). g \<noteq> []"
  by (induction gs) auto

lemma add_pauli_commuting:
  "\<forall>g \<in> set gs. pairwise_commuting g \<Longrightarrow> \<forall>g \<in> set (add_pauli p gs). pairwise_commuting g"
proof (induction gs)
  case Nil
  show ?case by (simp add: pairwise_commuting_def commutes_refl)
next
  case (Cons g gs)
  then show ?case by (auto intro: pairwise_commuting_snoc)
qed

lemma add_pauli_subseq:
  "\<forall>g \<in> set gs. subseq g ps \<Longrightarrow> \<forall>g \<in> set (add_pauli p gs). subseq g (ps @ [p])"
proof -
  have a: "\<And>h. subseq h ps \<Longrightarrow> subseq h (ps @ [p])"
    by (metis append_Nil2 list_emb_append_mono subseq_order.order_refl list_emb_Nil)
  have b: "\<And>h. subseq h ps \<Longrightarrow> subseq (h @ [p]) (ps @ [p])"
    by (simp add: list_emb_append_mono)
  have c: "subseq [p] (ps @ [p])"
    using b[of "[]"] by simp
  show "\<forall>g \<in> set gs. subseq g ps \<Longrightarrow> ?thesis"
    by (induction gs) (auto intro: a b c)
qed

lemma commuting_subsets_snoc:
  "commuting_subsets (ps @ [p]) = add_pauli p (commuting_subsets ps)"
  by (simp add: commuting_subsets_def)

lemma commuting_subsets_inv:
  "mset (concat (commuting_subsets paulis)) = mset paulis \<and>
   (\<forall>g \<in> set (commuting_subsets paulis). g \<noteq> [] \<and> subseq g paulis \<and> pairwise_commuting g)"
proof (induction paulis rule: rev_induct)
  case Nil
  show ?case by (simp add: commuting_subsets_def)
next
  case (snoc p ps)
  let ?gs = "commuting_subsets ps"
  from snoc have 1: "mset (concat ?gs) = mset ps" by blast
  from snoc have 2: "\<forall>g \<in> set ?gs. g \<noteq> []" by blast
  from snoc have 3: "\<forall>g \<in> set ?gs. subseq g ps" by blast
  from snoc have 4: "\<forall>g \<in> set ?gs. pairwise_commuting g" by blast
  show ?case
    unfolding commuting_subsets_snoc
    using add_pauli_mset[of p ?gs] 1 add_pauli_nonempty[OF 2, of p]
      add_pauli_subseq[OF 3, of p] add_pauli_commuting[OF 4, of p]
    by auto
qed

text \<open>
  Claim C4. After the greedy grouping loop, \<open>commuting_subsets\<close> is a partition of the
  parsed Pauli terms: the subsets together hold every term exactly once (as a multiset,
  so the 276 terms of the input give 276 members in all), no subset is empty, every
  subset lists its terms in the order of the input, and within every subset every pair
  of terms commutes.
\<close>

theorem commuting_subsets_partition:
  "mset (concat (commuting_subsets paulis)) = mset paulis \<and>
   length (concat (commuting_subsets paulis)) = length paulis \<and>
   (\<forall>g \<in> set (commuting_subsets paulis). g \<noteq> [] \<and> subseq g paulis \<and>
      (\<forall>p \<in> set g. \<forall>q \<in> set g. commutes (primitive p) (primitive q)))"
proof -
  have "mset (concat (commuting_subsets paulis)) = mset paulis"
    using commuting_subsets_inv[of paulis] by blast
  then have "length (concat (commuting_subsets paulis)) = length paulis"
    by (metis size_mset)
  then show ?thesis
    using commuting_subsets_inv[of paulis] unfolding pairwise_commuting_def by blast
qed

theorem commuting_subsets_partition_witness:
  "commuting_subsets [mk_op ''XX'' 1, mk_op ''ZI'' 2, mk_op ''ZZ'' 3, mk_op ''IX'' 4]
     = [[mk_op ''XX'' 1, mk_op ''ZZ'' 3], [mk_op ''ZI'' 2, mk_op ''IX'' 4]] \<and>
   mset (concat (commuting_subsets
       [mk_op ''XX'' 1, mk_op ''ZI'' 2, mk_op ''ZZ'' 3, mk_op ''IX'' 4]))
     = mset [mk_op ''XX'' 1, mk_op ''ZI'' 2, mk_op ''ZZ'' 3, mk_op ''IX'' 4] \<and>
   subseq [mk_op ''ZI'' 2, mk_op ''IX'' 4]
     [mk_op ''XX'' 1, mk_op ''ZI'' 2, mk_op ''ZZ'' 3, mk_op ''IX'' 4] \<and>
   commutes (mk_pauli ''XX'') (mk_pauli ''ZZ'') \<and>
   commutes (mk_pauli ''ZI'') (mk_pauli ''IX'') \<and>
   \<not> commutes (mk_pauli ''ZI'') (mk_pauli ''XX'')"
proof -
  have e: "commuting_subsets [mk_op ''XX'' 1, mk_op ''ZI'' 2, mk_op ''ZZ'' 3, mk_op ''IX'' 4]
     = [[mk_op ''XX'' 1, mk_op ''ZZ'' 3], [mk_op ''ZI'' 2, mk_op ''IX'' 4]]"
    by (simp add: commuting_subsets_def mk_op_def mk_pauli_def commutes_def count_and_def)
  have n: "\<not> commutes (mk_pauli ''ZI'') (mk_pauli ''XX'')"
    by (simp add: mk_pauli_def commutes_def count_and_def)
  show ?thesis
    using commuting_subsets_partition
      [of "[mk_op ''XX'' 1, mk_op ''ZI'' 2, mk_op ''ZZ'' 3, mk_op ''IX'' 4]"] n
    unfolding e by (simp add: mk_op_def)
qed

section \<open>The parser\<close>

lemma parse_line_fields:
  assumes "split_sp (strip line) = [sign, prefactor, u, s]"
    and "pauli_of_label s = Inr P" and "float_of prefactor = Some c"
  shows "parse_line float_of line =
           Inr \<lparr>primitive = P, coeff = (if sign = ''-'' then - c else c)\<rparr>"
  using assms by (simp add: parse_line_def)

lemma parse_lines_ok:
  assumes "\<forall>l \<in> set ls. well_formed float_of l"
  shows "\<exists>ps. parse_lines float_of ls = Inr ps \<and> length ps = length ls \<and>
           (\<forall>k < length ls. parse_line float_of (ls ! k) = Inr (ps ! k))"
  using assms
proof (induction ls)
  case Nil
  show ?case by simp
next
  case (Cons l ls)
  then obtain ps where ps: "parse_lines float_of ls = Inr ps" "length ps = length ls"
    "\<forall>k < length ls. parse_line float_of (ls ! k) = Inr (ps ! k)" by auto
  from Cons.prems obtain p where p: "parse_line float_of l = Inr p"
    unfolding well_formed_def using parse_line_fields by fastforce
  have "\<forall>k < length (l # ls). parse_line float_of ((l # ls) ! k) = Inr ((p # ps) ! k)"
    using p ps(3) by (auto simp: nth_Cons split: nat.splits)
  with p ps show ?case by simp
qed

text \<open>
  Claim C8. For every non-empty line of an input file in the format of the notebook,
  the parser splits the stripped line on spaces into four fields (sign, coefficient, a
  discarded field, a Pauli string) and produces the weighted Pauli term of the Pauli
  string whose coefficient is the parsed number, negated exactly when the sign field is
  \<open>-\<close>; the terms come in the order of the lines, one per non-empty line, so a file of
  276 non-empty lines gives exactly 276 terms.
\<close>

theorem read_paulis_fields:
  assumes "\<forall>l \<in> set lines. l \<noteq> [] \<longrightarrow> well_formed float_of l"
  shows "\<exists>paulis. read_paulis float_of lines = Inr paulis \<and>
           length paulis = length (filter (\<lambda>l. l \<noteq> []) lines) \<and>
           (\<forall>k < length paulis. \<forall>sign prefactor u s.
              split_sp (strip (filter (\<lambda>l. l \<noteq> []) lines ! k)) = [sign, prefactor, u, s] \<longrightarrow>
              pauli_of_label s = Inr (primitive (paulis ! k)) \<and>
              (\<exists>c. float_of prefactor = Some c \<and>
                   coeff (paulis ! k) = (if sign = ''-'' then - c else c))) \<and>
           (length lines = 276 \<and> [] \<notin> set lines \<longrightarrow> length paulis = 276)"
proof -
  let ?ls = "filter (\<lambda>l. l \<noteq> []) lines"
  have "\<forall>l \<in> set ?ls. well_formed float_of l" using assms by simp
  from parse_lines_ok[OF this] obtain ps where ps: "parse_lines float_of ?ls = Inr ps"
    "length ps = length ?ls" "\<forall>k < length ?ls. parse_line float_of (?ls ! k) = Inr (ps ! k)"
    by blast
  have fields: "pauli_of_label s = Inr (primitive (ps ! k)) \<and>
       (\<exists>c. float_of prefactor = Some c \<and> coeff (ps ! k) = (if sign = ''-'' then - c else c))"
    if k: "k < length ps" and sp: "split_sp (strip (?ls ! k)) = [sign, prefactor, u, s]"
    for k sign prefactor u s
  proof -
    have "?ls ! k \<in> set ?ls" using k ps(2) by (metis nth_mem)
    then have "well_formed float_of (?ls ! k)" using assms by simp
    then obtain P c where Pc: "pauli_of_label s = Inr P" "float_of prefactor = Some c"
      unfolding well_formed_def using sp by auto
    have "parse_line float_of (?ls ! k) = Inr (ps ! k)" using ps(3) k ps(2) by simp
    with parse_line_fields[where float_of=float_of, OF sp Pc]
    have "ps ! k = \<lparr>primitive = P, coeff = (if sign = ''-'' then - c else c)\<rparr>"
      by simp
    with Pc show ?thesis by simp
  qed
  have "[] \<notin> set lines \<Longrightarrow> ?ls = lines"
    by (induction lines) auto
  then have full: "length lines = 276 \<and> [] \<notin> set lines \<longrightarrow> length ps = 276"
    using ps(2) by auto
  show ?thesis
    unfolding read_paulis_def using ps(1,2) fields full by (intro exI[of _ ps]) blast
qed

theorem read_paulis_fields_witness:
  "read_paulis float_example [''- 2 * XZ'', [], ''+ 3.0 * IY '']
     = Inr [mk_op ''XZ'' (- 2), mk_op ''IY'' 3] \<and>
   (\<exists>paulis. read_paulis float_example [''- 2 * XZ'', [], ''+ 3.0 * IY ''] = Inr paulis \<and>
      length paulis = 2)"
proof -
  have s1: "split_sp (strip ''- 2 * XZ'') = [''-'', ''2'', ''*'', ''XZ'']"
    by (simp add: strip_def is_space_def)
  have s2: "split_sp (strip ''+ 3.0 * IY '') = [''+'', ''3.0'', ''*'', ''IY'']"
    by (simp add: strip_def is_space_def)
  have wf: "\<forall>l \<in> set [''- 2 * XZ'', [], ''+ 3.0 * IY '']. l \<noteq> [] \<longrightarrow> well_formed float_example l"
    by (simp add: well_formed_def s1 s2 pauli_of_label_def float_example_def)
  have ev: "read_paulis float_example [''- 2 * XZ'', [], ''+ 3.0 * IY '']
     = Inr [mk_op ''XZ'' (- 2), mk_op ''IY'' 3]"
    by (simp add: read_paulis_def parse_line_def s1 s2 pauli_of_label_def float_example_def
        mk_op_def mk_pauli_def)
  show ?thesis using read_paulis_fields[OF wf] ev by simp
qed

section \<open>The master circuit\<close>

lemma foldE_compose_group:
  "\<forall>i \<in> set idxs. i < length cs \<Longrightarrow>
   foldE (compose_group cs) idxs acc = Inr (acc @ concat (map ((!) cs) idxs))"
  by (induction idxs arbitrary: acc) (auto simp: compose_group_def)

lemma group_order_bound: "\<forall>i \<in> set group_order. i < 21"
  by (simp add: group_order_def)

lemma group_order_twice: "list_all (\<lambda>i. count_list (group_order @ group_order) i = 2) [0..<21]"
  by code_simp

lemma group_circuits_length:
  "group_circuits rank n groups = Inr circuits \<Longrightarrow> length circuits = length groups"
  by (induction groups arbitrary: circuits) (auto split: sum.splits)

lemma group_circuits_nth:
  "group_circuits rank n groups = Inr circuits \<Longrightarrow> i < length groups \<Longrightarrow>
   group_circuit rank n (groups ! i) = Inr (circuits ! i)"
proof (induction groups arbitrary: circuits i)
  case Nil
  then show ?case by simp
next
  case (Cons g gs)
  then show ?case by (cases i) (auto split: sum.splits)
qed

lemma group_circuit_parts:
  "group_circuit rank n grp = Inr c \<Longrightarrow>
   \<exists>diag_qc diag_paulis diag_paulis_qc.
     sim_cliff_diag rank (map primitive grp) = Inr (diag_qc, diag_paulis) \<and>
     walk_paulis (new_paulis n grp diag_paulis) = Inr diag_paulis_qc \<and>
     c = diag_qc @ diag_paulis_qc @ inverse_circuit diag_qc"
  by (auto simp: group_circuit_def split: sum.splits)




section \<open>Parity sums\<close>

lemma par_cong: "(\<And>k. k < m \<Longrightarrow> f k = g k) \<Longrightarrow> par m f = par m g"
  by (induction m) auto

lemma par_xor: "par m (\<lambda>k. f k \<noteq> g k) = (par m f \<noteq> par m g)"
  by (induction m) auto

lemma par_False [simp]: "par m (\<lambda>k. False) = False"
  by (induction m) auto

lemma par_single: "par m (\<lambda>k. k = j \<and> c) = (j < m \<and> c)"
  by (induction m) (auto simp: less_Suc_eq)

lemma par_two: "a \<noteq> b \<Longrightarrow> a < m \<Longrightarrow> b < m \<Longrightarrow> par m (\<lambda>k. (k = a \<or> k = b) \<and> c) = False"
proof -
  assume h: "a \<noteq> b" "a < m" "b < m"
  have "par m (\<lambda>k. (k = a \<or> k = b) \<and> c) = par m (\<lambda>k. (k = a \<and> c) \<noteq> (k = b \<and> c))"
    using h by (intro par_cong) auto
  also have "\<dots> = (par m (\<lambda>k. k = a \<and> c) \<noteq> par m (\<lambda>k. k = b \<and> c))"
    by (rule par_xor)
  also have "\<dots> = False"
    unfolding par_single using h by simp
  finally show ?thesis .
qed

lemma swp_same [simp]: "swp k k b = b"
  by (simp add: swp_def)

lemma par_swp: "j < m \<Longrightarrow> k < m \<Longrightarrow> par m (\<lambda>b. f (swp j k b)) = par m f"
proof (cases "j = k")
  case True
  then show ?thesis by simp
next
  case False
  assume h: "j < m" "k < m"
  have "par m (\<lambda>b. f (swp j k b)) = par m (\<lambda>b. f b \<noteq> ((b = j \<or> b = k) \<and> (f j \<noteq> f k)))"
    using False by (intro par_cong) (auto simp: swp_def)
  also have "\<dots> = (par m f \<noteq> par m (\<lambda>b. (b = j \<or> b = k) \<and> (f j \<noteq> f k)))"
    by (rule par_xor)
  also have "\<dots> = par m f"
    unfolding par_two[OF False h] by simp
  finally show ?thesis .
qed

lemma odd_sum_list_upt:
  "odd (sum_list (map f [0..<m]) :: int) = par m (\<lambda>k. odd (f k))"
  by (induction m) auto

lemma par_count:
  "length xs = m \<Longrightarrow> odd (length (filter P xs)) = par m (\<lambda>k. P (xs ! k))"
proof (induction xs arbitrary: m rule: rev_induct)
  case Nil
  then show ?case by simp
next
  case (snoc x xs)
  then obtain m' where m': "m = Suc m'" "length xs = m'" by auto
  have "par m' (\<lambda>k. P ((xs @ [x]) ! k)) = par m' (\<lambda>k. P (xs ! k))"
    using m' by (intro par_cong) (simp add: nth_append)
  with snoc.IH[OF m'(2)] m' show ?case by (auto simp: nth_append)
qed

section \<open>The symplectic form of two rows\<close>

lemma anti_self [simp]: "anti m T i i = False"
proof -
  have "anti m T i i = par m (\<lambda>k. False)"
    unfolding anti_def by (intro par_cong) auto
  then show ?thesis by simp
qed

lemma anti_sym: "anti m T i j = anti m T j i"
  unfolding anti_def by (intro par_cong) auto

lemma g_fn_odd:
  "odd (g_fn (of_bool x1) (of_bool z1) (of_bool x2) (of_bool z2)) = ((x1 \<and> z2) \<noteq> (z1 \<and> x2))"
  by (cases x1; cases z1; cases x2; cases z2) (simp_all add: g_fn_def)

lemma sweep_t_odd: "odd (sweep_t m T i j) = anti m T i j"
  unfolding sweep_t_def anti_def by (simp add: odd_sum_list_upt g_fn_odd)

lemma sweep_t_mod4: "(sweep_t m T i j mod 4 = 0 \<or> sweep_t m T i j mod 4 = 2) = (\<not> anti m T i j)"
  unfolding sweep_t_odd[symmetric] by presburger



section \<open>Effect of the tableau updates\<close>

lemma h_op_sel [simp]:
  "tX (h_op c T) a b = (if b = c then tZ T a c else tX T a b)"
  "tZ (h_op c T) a b = (if b = c then tX T a c else tZ T a b)"
  by (simp_all add: h_op_def)

lemma s_op_sel [simp]:
  "tX (s_op c T) a b = tX T a b"
  "tZ (s_op c T) a b = (if b = c then tZ T a c \<noteq> tX T a c else tZ T a b)"
  by (simp_all add: s_op_def)

lemma cnot_sel [simp]:
  "tX (cnot i j T) a b = (if b = j then tX T a j \<noteq> tX T a i else tX T a b)"
  "tZ (cnot i j T) a b = (if b = i then tZ T a i \<noteq> tZ T a j else tZ T a b)"
  by (simp_all add: cnot_def Let_def)

lemma cz_sel:
  "i \<noteq> j \<Longrightarrow> tX (cz i j T) a b = tX T a b"
  "i \<noteq> j \<Longrightarrow> tZ (cz i j T) a b =
     (if b = j then tZ T a j \<noteq> tX T a i else if b = i then tZ T a i \<noteq> tX T a j else tZ T a b)"
  by (auto simp: cz_def)

lemma swap_rows_sel [simp]:
  "tX (swap_rows i k T) a b = tX T (swp i k a) b"
  "tZ (swap_rows i k T) a b = tZ T (swp i k a) b"
  by (simp_all add: swap_rows_def)

lemma swap_cols_sel [simp]:
  "tX (swap_cols j k T) a b = tX T a (swp j k b)"
  "tZ (swap_cols j k T) a b = tZ T a (swp j k b)"
  by (simp_all add: swap_cols_def)

lemma xor_rows_sel [simp]:
  "tX (xor_rows i j T) a b = (if a = j then tX T j b \<noteq> tX T i b else tX T a b)"
  "tZ (xor_rows i j T) a b = (if a = j then tZ T j b \<noteq> tZ T i b else tZ T a b)"
  by (simp_all add: xor_rows_def)

section \<open>The updates preserve the symplectic form\<close>

lemma anti_h_op [simp]: "anti m (h_op c T) i j = anti m T i j"
  unfolding anti_def by (intro par_cong) auto

lemma anti_s_op [simp]: "anti m (s_op c T) i j = anti m T i j"
  unfolding anti_def by (intro par_cong) auto

lemma anti_cnot [simp]:
  assumes "a \<noteq> b" "a < m" "b < m"
  shows "anti m (cnot a b T) i j = anti m T i j"
proof -
  let ?c = "(tX T i a \<and> tZ T j b) \<noteq> (tZ T i b \<and> tX T j a)"
  let ?f = "\<lambda>k. (tX T i k \<and> tZ T j k) \<noteq> (tZ T i k \<and> tX T j k)"
  have "anti m (cnot a b T) i j = par m (\<lambda>k. ?f k \<noteq> ((k = a \<or> k = b) \<and> ?c))"
    unfolding anti_def using assms(1) by (intro par_cong) auto
  also have "\<dots> = (par m ?f \<noteq> par m (\<lambda>k. (k = a \<or> k = b) \<and> ?c))"
    by (rule par_xor)
  also have "\<dots> = par m ?f"
    unfolding par_two[OF assms] by simp
  finally show ?thesis by (simp add: anti_def)
qed

lemma anti_cz [simp]:
  assumes "a \<noteq> b" "a < m" "b < m"
  shows "anti m (cz a b T) i j = anti m T i j"
  unfolding cz_def using assms by simp

lemma anti_swap_cols [simp]:
  assumes "a < m" "b < m"
  shows "anti m (swap_cols a b T) i j = anti m T i j"
proof -
  let ?f = "\<lambda>k. (tX T i k \<and> tZ T j k) \<noteq> (tZ T i k \<and> tX T j k)"
  have "anti m (swap_cols a b T) i j = par m (\<lambda>k. ?f (swp a b k))"
    unfolding anti_def by (intro par_cong) auto
  also have "\<dots> = par m ?f" by (rule par_swp[OF assms])
  finally show ?thesis by (simp add: anti_def)
qed

lemma anti_swap_rows [simp]:
  "anti m (swap_rows a b T) i j = anti m T (swp a b i) (swp a b j)"
  unfolding anti_def by (intro par_cong) auto

lemma anti_S_upd [simp]: "anti m (T\<lparr>tS := s\<rparr>) i j = anti m T i j"
  by (simp add: anti_def)

lemma anti_xor_rows:
  "anti m (xor_rows a b T) i j =
     ((anti m T i j \<noteq> (i = b \<and> anti m T a j)) \<noteq> (j = b \<and> anti m T i a) )"
proof -
  let ?f = "\<lambda>i j k. (tX T i k \<and> tZ T j k) \<noteq> (tZ T i k \<and> tX T j k)"
  have "anti m (xor_rows a b T) i j =
        par m (\<lambda>k. (?f i j k \<noteq> (i = b \<and> ?f a j k)) \<noteq> (j = b \<and> ?f i a k))"
    unfolding anti_def by (intro par_cong) auto
  also have "\<dots> = ((par m (?f i j) \<noteq> par m (\<lambda>k. i = b \<and> ?f a j k)) \<noteq> par m (\<lambda>k. j = b \<and> ?f i a k))"
    by (simp only: par_xor)
  also have "par m (\<lambda>k. i = b \<and> ?f a j k) = (i = b \<and> par m (?f a j))"
    by (cases "i = b") simp_all
  also have "par m (\<lambda>k. j = b \<and> ?f i a k) = (j = b \<and> par m (?f i a))"
    by (cases "j = b") simp_all
  finally show ?thesis by (simp add: anti_def)
qed

lemma swp_less: "i < n \<Longrightarrow> k < n \<Longrightarrow> a < n \<Longrightarrow> swp i k a < n"
  by (simp add: swp_def)

lemma comm_rows_swap_rows: "i < n \<Longrightarrow> k < n \<Longrightarrow> comm_rows n m T \<Longrightarrow> comm_rows n m (swap_rows i k T)"
  by (simp add: comm_rows_def swp_less)

lemma comm_rows_swap_cols: "a < m \<Longrightarrow> b < m \<Longrightarrow> comm_rows n m T \<Longrightarrow> comm_rows n m (swap_cols a b T)"
  by (simp add: comm_rows_def)

lemma comm_rows_xor_rows: "a < n \<Longrightarrow> b < n \<Longrightarrow> comm_rows n m T \<Longrightarrow> comm_rows n m (xor_rows a b T)"
  by (simp add: comm_rows_def anti_xor_rows)

lemma comm_rows_S_upd [simp]: "comm_rows n m (T\<lparr>tS := s\<rparr>) = comm_rows n m T"
  by (simp add: comm_rows_def)

lemma comm_rows_h_op [simp]: "comm_rows n m (h_op c T) = comm_rows n m T"
  by (simp add: comm_rows_def)

lemma comm_rows_s_op [simp]: "comm_rows n m (s_op c T) = comm_rows n m T"
  by (simp add: comm_rows_def)

lemma comm_rows_cnot [simp]: "a \<noteq> b \<Longrightarrow> a < m \<Longrightarrow> b < m \<Longrightarrow> comm_rows n m (cnot a b T) = comm_rows n m T"
  by (simp add: comm_rows_def)

lemma comm_rows_cz [simp]: "a \<noteq> b \<Longrightarrow> a < m \<Longrightarrow> b < m \<Longrightarrow> comm_rows n m (cz a b T) = comm_rows n m T"
  by (simp add: comm_rows_def)

section \<open>sweep_rows never raises on commuting rows\<close>

lemma sweep_rows_commuting:
  "\<not> anti m T i j \<Longrightarrow>
   \<exists>s. sweep_rows m T i j = Inr (xor_rows i j (T\<lparr>tS := s\<rparr>))"
  using sweep_t_mod4[of m T i j] by (auto simp: sweep_rows_def Let_def)

lemma sweep_rows_anti:
  "anti m T i j \<Longrightarrow> sweep_rows m T i j = Inl SweepRowsError"
  using sweep_t_mod4[of m T i j] by (auto simp: sweep_rows_def Let_def)



section \<open>The rows of the copy stay in the span of the interim rows\<close>

lemma rspan_mono:
  assumes "\<And>a. a < n \<Longrightarrow> rowv T a \<in> rspan n T'"
  shows "v \<in> rspan n T \<Longrightarrow> v \<in> rspan n T'"
  by (induction rule: rspan.induct) (auto intro: rspan.intros assms)

lemma rspan_map:
  assumes lin: "\<And>u v. f (vxor u v) = vxor (f u) (f v)" and z: "f vzero = vzero"
    and rows: "\<And>a. a < n \<Longrightarrow> rowv T' a = f (rowv T a)"
  shows "v \<in> rspan n T \<Longrightarrow> f v \<in> rspan n T'"
proof (induction rule: rspan.induct)
  case zero
  show ?case unfolding z by (rule rspan.zero)
next
  case (row a)
  show ?case using rspan.row[OF row, of T'] rows[OF row] by simp
next
  case (add u v)
  show ?case unfolding lin using add.IH by (rule rspan.add)
qed

lemma in_span_map:
  assumes lin: "\<And>u v. f (vxor u v) = vxor (f u) (f v)" and z: "f vzero = vzero"
    and rows: "\<And>a. a < n \<Longrightarrow> rowv T' a = f (rowv T a)"
    and rows2: "\<And>a. a < n \<Longrightarrow> rowv T2' a = f (rowv T2 a)"
  shows "in_span n T2 T \<Longrightarrow> in_span n T2' T'"
  unfolding in_span_def using rspan_map[where f = f, OF lin z rows] rows2 by auto

lemma in_span_refl: "in_span n T T"
  by (simp add: in_span_def rspan.row)

lemma in_span_mono:
  assumes "\<And>a. a < n \<Longrightarrow> rowv T a \<in> rspan n T'"
  shows "in_span n T2 T \<Longrightarrow> in_span n T2 T'"
  unfolding in_span_def using rspan_mono[OF assms] by blast

text \<open>Row operations on the interim tableau.\<close>

lemma in_span_swap_rows:
  assumes "i < n" "k < n" "in_span n T2 T"
  shows "in_span n T2 (swap_rows i k T)"
proof (rule in_span_mono[OF _ assms(3)])
  fix a assume a: "a < n"
  have "rowv T a = rowv (swap_rows i k T) (swp i k a)"
    by (auto simp: rowv_def swp_def fun_eq_iff)
  moreover have "swp i k a < n" using assms a by (simp add: swp_def)
  ultimately show "rowv T a \<in> rspan n (swap_rows i k T)"
    using rspan.row[of "swp i k a" n "swap_rows i k T"] by simp
qed

lemma in_span_xor_rows:
  assumes "i < n" "j < n" "i \<noteq> j" "in_span n T2 T"
  shows "in_span n T2 (xor_rows i j (T\<lparr>tS := s\<rparr>))"
proof (rule in_span_mono[OF _ assms(4)])
  let ?T' = "xor_rows i j (T\<lparr>tS := s\<rparr>)"
  fix a assume a: "a < n"
  show "rowv T a \<in> rspan n ?T'"
  proof (cases "a = j")
    case False
    then have "rowv T a = rowv ?T' a" by (auto simp: rowv_def fun_eq_iff xor_rows_def)
    then show ?thesis using rspan.row[OF a, of ?T'] by simp
  next
    case True
    have "rowv T j = vxor (rowv ?T' j) (rowv ?T' i)"
      using assms(3) by (auto simp: rowv_def vxor_def fun_eq_iff xor_rows_def)
    then show ?thesis
      using rspan.add[OF rspan.row[OF assms(2), of ?T'] rspan.row[OF assms(1), of ?T']] True
      by simp
  qed
qed

text \<open>Column operations, applied to both tableaus.\<close>

lemma in_span_swap_cols:
  "in_span n T2 T \<Longrightarrow> in_span n (swap_cols j k T2) (swap_cols j k T)"
  by (rule in_span_map[where f = "\<lambda>u. (\<lambda>b. fst u (swp j k b), \<lambda>b. snd u (swp j k b))"])
     (auto simp: vxor_def vzero_def rowv_def fun_eq_iff swap_cols_def)

lemma in_span_h_op:
  "in_span n T2 T \<Longrightarrow> in_span n (h_op c T2) (h_op c T)"
  by (rule in_span_map[where f = "\<lambda>u. (\<lambda>b. if b = c then snd u c else fst u b,
                                       \<lambda>b. if b = c then fst u c else snd u b)"])
     (auto simp: vxor_def vzero_def rowv_def fun_eq_iff h_op_def)

lemma in_span_s_op:
  "in_span n T2 T \<Longrightarrow> in_span n (s_op c T2) (s_op c T)"
  by (rule in_span_map[where f = "\<lambda>u. (fst u, \<lambda>b. if b = c then snd u c \<noteq> fst u c else snd u b)"])
     (auto simp: vxor_def vzero_def rowv_def fun_eq_iff s_op_def)

lemma in_span_cnot:
  "in_span n T2 T \<Longrightarrow> in_span n (cnot i j T2) (cnot i j T)"
  by (rule in_span_map[where f = "\<lambda>u. (\<lambda>b. if b = j then fst u j \<noteq> fst u i else fst u b,
                                       \<lambda>b. if b = i then snd u i \<noteq> snd u j else snd u b)"])
     (auto simp: vxor_def vzero_def rowv_def fun_eq_iff cnot_def Let_def)

lemma in_span_cz:
  "in_span n T2 T \<Longrightarrow> in_span n (cz i j T2) (cz i j T)"
  unfolding cz_def by (intro in_span_h_op in_span_cnot)

lemma rspan_X_zero:
  assumes "\<And>a b. a < n \<Longrightarrow> b < m \<Longrightarrow> \<not> tX T a b"
  shows "v \<in> rspan n T \<Longrightarrow> b < m \<Longrightarrow> \<not> fst v b"
  by (induction rule: rspan.induct) (auto simp: vzero_def rowv_def vxor_def assms)

lemma in_span_X_zero:
  assumes "in_span n T2 T" and "\<And>a b. a < n \<Longrightarrow> b < m \<Longrightarrow> \<not> tX T a b"
    and "a < n" "b < m"
  shows "\<not> tX T2 a b"
  using rspan_X_zero[of n m T "rowv T2 a" b] assms by (auto simp: in_span_def rowv_def)



section \<open>The elimination loops\<close>

lemma foldE_append:
  "foldE f (xs @ ys) s = (case foldE f xs s of Inl e \<Rightarrow> Inl e | Inr s' \<Rightarrow> foldE f ys s')"
  by (induction xs arbitrary: s) (auto split: sum.splits)

lemma foldE_single: "foldE f [x] s = f x s"
  by (simp split: sum.splits)

lemma find_pivot_None:
  "find_pivot M n m k = None \<longleftrightarrow> (\<forall>i j. k \<le> i \<and> i < n \<and> k \<le> j \<and> j < m \<longrightarrow> \<not> M i j)"
  by (auto simp: find_pivot_def find_None_iff)

lemma find_pivot_Some:
  assumes "find_pivot M n m k = Some (i, j)"
  shows "k \<le> i \<and> i < n \<and> k \<le> j \<and> j < m \<and> M i j"
proof -
  from assms have "(i, j) \<in> set (List.product [k..<n] [k..<m]) \<and> M i j"
    unfolding find_pivot_def find_Some_iff by (metis case_prod_conv nth_mem)
  then show ?thesis by auto
qed

lemma swp_right [simp]: "swp j k k = j"
  by (simp add: swp_def)

lemma swp_left [simp]: "swp j k j = k"
  by (simp add: swp_def)

lemma swap_rows_same [simp]: "swap_rows k k (T :: tableau) = T"
  by (simp add: swap_rows_def)

lemma swap_cols_same [simp]: "swap_cols k k (T :: tableau) = T"
  by (simp add: swap_cols_def)

lemma sweep_all_prefix:
  assumes sel: "sel = tX \<or> sel = tZ" and k: "k < n" and q: "q \<le> n"
    and comm: "comm_rows n m T" and sp: "in_span n T2 T"
  shows "\<exists>T'. foldE (\<lambda>l T. if l = k then Inr T
                  else if sel T l k then sweep_rows m T k l else Inr T) [0..<q] T = Inr T' \<and>
           comm_rows n m T' \<and> in_span n T2 T' \<and>
           (\<forall>a b. tX T' a b = (if a < q \<and> a \<noteq> k \<and> sel T a k then tX T a b \<noteq> tX T k b else tX T a b)) \<and>
           (\<forall>a b. tZ T' a b = (if a < q \<and> a \<noteq> k \<and> sel T a k then tZ T a b \<noteq> tZ T k b else tZ T a b))"
  using q
proof (induction q)
  case 0
  show ?case using comm sp by simp
next
  case (Suc q)
  let ?f = "\<lambda>l T. if l = k then Inr T else if sel T l k then sweep_rows m T k l else Inr T"
  from Suc obtain T' where T': "foldE ?f [0..<q] T = Inr T'" "comm_rows n m T'" "in_span n T2 T'"
    and X': "\<And>a b. tX T' a b = (if a < q \<and> a \<noteq> k \<and> sel T a k then tX T a b \<noteq> tX T k b else tX T a b)"
    and Z': "\<And>a b. tZ T' a b = (if a < q \<and> a \<noteq> k \<and> sel T a k then tZ T a b \<noteq> tZ T k b else tZ T a b)"
    by auto
  have qn: "q < n" using Suc.prems by simp
  have selq: "sel T' q k = sel T q k" using sel X' Z' by auto
  have step: "foldE ?f [0..<Suc q] T = ?f q T'"
    using T'(1) by (simp add: foldE_append foldE_single del: foldE.simps)
  show ?case
  proof (cases "q \<noteq> k \<and> sel T q k")
    case False
    then have "?f q T' = Inr T'" using selq by auto
    moreover have "\<And>a. (a < Suc q \<and> a \<noteq> k \<and> sel T a k) = (a < q \<and> a \<noteq> k \<and> sel T a k)"
      using False by (auto simp: less_Suc_eq)
    ultimately show ?thesis using step T' X' Z' by simp
  next
    case True
    have "\<not> anti m T' k q" using T'(2) k qn by (simp add: comm_rows_def)
    from sweep_rows_commuting[OF this] obtain s where
      s: "sweep_rows m T' k q = Inr (xor_rows k q (T'\<lparr>tS := s\<rparr>))" by blast
    let ?T'' = "xor_rows k q (T'\<lparr>tS := s\<rparr>)"
    have 1: "?f q T' = Inr ?T''" using True selq s by simp
    have 2: "comm_rows n m ?T''"
      using comm_rows_xor_rows[OF k qn, of m "T'\<lparr>tS := s\<rparr>"] T'(2) by simp
    have 3: "in_span n T2 ?T''"
      using in_span_xor_rows[OF k qn _ T'(3)] True by blast
    have 4: "tX ?T'' a b = (if a < Suc q \<and> a \<noteq> k \<and> sel T a k then tX T a b \<noteq> tX T k b else tX T a b)" for a b
      using True X' by (auto simp: less_Suc_eq)
    have 5: "tZ ?T'' a b = (if a < Suc q \<and> a \<noteq> k \<and> sel T a k then tZ T a b \<noteq> tZ T k b else tZ T a b)" for a b
      using True Z' by (auto simp: less_Suc_eq)
    show ?thesis using step 1 2 3 4 5 by auto
  qed
qed

lemma sweep_all_ok:
  assumes "sel = tX \<or> sel = tZ" "k < n" "comm_rows n m T" "in_span n T2 T"
  shows "\<exists>T'. sweep_all sel n m k T = Inr T' \<and>
           comm_rows n m T' \<and> in_span n T2 T' \<and>
           (\<forall>a b. tX T' a b = (if a < n \<and> a \<noteq> k \<and> sel T a k then tX T a b \<noteq> tX T k b else tX T a b)) \<and>
           (\<forall>a b. tZ T' a b = (if a < n \<and> a \<noteq> k \<and> sel T a k then tZ T a b \<noteq> tZ T k b else tZ T a b))"
  unfolding sweep_all_def using sweep_all_prefix[OF assms(1,2) order_refl assms(3,4)] .

lemma elim_step_None:
  "find_pivot (sel (sT st)) n m k = None \<Longrightarrow> elim_step sel n m k (st, kk) = Inr (st, kk)"
  by (simp add: elim_step_def)

lemma elim_step_Some:
  assumes sel: "sel = tX \<or> sel = tZ"
    and comm: "comm_rows n m (sT st)" and sp: "in_span n (sT2 st) (sT st)"
    and piv: "find_pivot (sel (sT st)) n m k = Some (i, j)"
  shows "\<exists>st'. elim_step sel n m k (st, kk) = Inr (st', Suc k) \<and>
           comm_rows n m (sT st') \<and> in_span n (sT2 st') (sT st') \<and>
           pivoted sel n i j k (sT st) (sT st')"
proof -
  from find_pivot_Some[OF piv] have b: "k \<le> i" "i < n" "k \<le> j" "j < m" by auto
  then have kn: "k < n" and km: "k < m" by auto
  let ?T1 = "swap_cols j k (swap_rows i k (sT st))"
  let ?T2 = "swap_cols j k (sT2 st)"
  let ?st2 = "(if j \<noteq> k
                 then \<lparr>sT = swap_cols j k (if i \<noteq> k then swap_rows i k (sT st) else sT st),
                       sT2 = swap_cols j k (sT2 st),
                       qc = qc st @ [CX_gate j k, CX_gate k j, CX_gate j k]\<rparr>
                 else st\<lparr>sT := (if i \<noteq> k then swap_rows i k (sT st) else sT st)\<rparr>)"
  have T1: "sT ?st2 = ?T1" by auto
  have T2: "sT2 ?st2 = ?T2" by auto
  have c1: "comm_rows n m ?T1"
    using comm_rows_swap_cols[OF \<open>j < m\<close> km comm_rows_swap_rows[OF \<open>i < n\<close> kn comm]] .
  have s1: "in_span n ?T2 ?T1"
    using in_span_swap_cols[OF in_span_swap_rows[OF \<open>i < n\<close> kn sp]] .
  from sweep_all_ok[OF sel kn c1 s1] obtain T' where T':
    "sweep_all sel n m k ?T1 = Inr T'" "comm_rows n m T'" "in_span n ?T2 T'"
    and X': "\<And>a b. tX T' a b = (if a < n \<and> a \<noteq> k \<and> sel ?T1 a k then tX ?T1 a b \<noteq> tX ?T1 k b else tX ?T1 a b)"
    and Z': "\<And>a b. tZ T' a b = (if a < n \<and> a \<noteq> k \<and> sel ?T1 a k then tZ ?T1 a b \<noteq> tZ ?T1 k b else tZ ?T1 a b)"
    by blast
  have e: "elim_step sel n m k (st, kk) = Inr (?st2\<lparr>sT := T'\<rparr>, Suc k)"
  proof (cases "j = k")
    case True
    then show ?thesis using piv T'(1) by (cases "i = k") (simp_all add: elim_step_def Let_def)
  next
    case False
    then show ?thesis using piv T'(1) by (cases "i = k") (simp_all add: elim_step_def Let_def)
  qed
  have selT1: "sel ?T1 a k = sel (sT st) (swp i k a) j" for a
    using sel by auto
  have kk: "swp i k k = i" by simp
  have X'': "tX T' a b =
         (if a < n \<and> a \<noteq> k \<and> sel (sT st) (swp i k a) j
          then tX (sT st) (swp i k a) (swp j k b) \<noteq> tX (sT st) i (swp j k b)
          else tX (sT st) (swp i k a) (swp j k b))" for a b
    unfolding X' selT1 by simp
  have Z'': "tZ T' a b =
         (if a < n \<and> a \<noteq> k \<and> sel (sT st) (swp i k a) j
          then tZ (sT st) (swp i k a) (swp j k b) \<noteq> tZ (sT st) i (swp j k b)
          else tZ (sT st) (swp i k a) (swp j k b))" for a b
    unfolding Z' selT1 by simp
  have p: "pivoted sel n i j k (sT st) T'"
    unfolding pivoted_def using X'' Z'' by blast
  show ?thesis
    using e T'(2,3) p T2 by (intro exI[of _ "?st2\<lparr>sT := T'\<rparr>"]) auto
qed



lemma pivoted_sel:
  assumes "pivoted sel n i j k T T'" "sel = tX \<or> sel = tZ"
  shows "sel T' r c =
         (if r < n \<and> r \<noteq> k \<and> sel T (swp i k r) j
          then sel T (swp i k r) (swp j k c) \<noteq> sel T i (swp j k c)
          else sel T (swp i k r) (swp j k c))"
  using assms unfolding pivoted_def by auto

lemma swp_cases: "swp i k r = (if r = i then k else if r = k then i else r)"
  by (simp add: swp_def)

lemma ublock_step:
  assumes p: "pivoted sel n i j k T T'" and sel: "sel = tX \<or> sel = tZ"
    and u: "ublock (sel T) n a k" and b: "a \<le> k" "k \<le> i" "i < n" "k \<le> j" and piv: "sel T i j"
  shows "ublock (sel T') n a (Suc k)"
  unfolding ublock_def
proof (intro allI impI)
  fix r c assume r: "r < n" and c: "a \<le> c \<and> c < Suc k"
  note M' = pivoted_sel[OF p sel]
  have kn: "k < n" using b by simp
  have sr: "swp i k r < n" using r b kn by (simp add: swp_def)
  show "sel T' r c = (r = c)"
  proof (cases "c = k")
    case True
    show ?thesis
    proof (cases "r = k")
      case True
      then show ?thesis using M'[of r c] \<open>c = k\<close> piv by simp
    next
      case False
      then show ?thesis using M'[of r c] \<open>c = k\<close> piv r by auto
    qed
  next
    case False
    then have ck: "c < k" using c by simp
    then have sc: "swp j k c = c" using b by (simp add: swp_def)
    have ic: "sel T i c = False" using u b(3) c ck b(2) by (auto simp: ublock_def)
    have "sel T (swp i k r) c = (swp i k r = c)" using u sr c ck by (auto simp: ublock_def)
    moreover have "(swp i k r = c) = (r = c)" using ck b(2) by (auto simp: swp_def)
    ultimately show ?thesis using M'[of r c] sc ic by simp
  qed
qed

lemma xinv_step:
  assumes p: "pivoted tZ n i j k T T'" and x: "xinv n m kx (tX T)"
    and b: "kx \<le> k" "k \<le> i" "i < n" "k \<le> j" "j < m" "kx \<le> m"
  shows "xinv n m kx (tX T')"
proof -
  have X': "tX T' r c =
         (if r < n \<and> r \<noteq> k \<and> tZ T (swp i k r) j
          then tX T (swp i k r) (swp j k c) \<noteq> tX T i (swp j k c)
          else tX T (swp i k r) (swp j k c))" for r c
    using p unfolding pivoted_def by auto
  have kn: "k < n" "k < m" using b by auto
  have zr: "\<And>r c. kx \<le> r \<Longrightarrow> r < n \<Longrightarrow> c < m \<Longrightarrow> \<not> tX T r c"
    using x by (auto simp: xinv_def)
  have un: "\<And>r c. r < n \<Longrightarrow> c < kx \<Longrightarrow> tX T r c = (r = c)"
    using x by (auto simp: xinv_def ublock_def)
  have scm: "\<And>c. c < m \<Longrightarrow> swp j k c < m" using b kn by (simp add: swp_def)
  have irow: "\<And>c. c < m \<Longrightarrow> \<not> tX T i (swp j k c)"
    using zr[of i] b scm by auto
  have eq: "\<And>r c. c < m \<Longrightarrow> tX T' r c = tX T (swp i k r) (swp j k c)"
    using X' irow by auto
  have 1: "ublock (tX T') n 0 kx"
    unfolding ublock_def
  proof (intro allI impI)
    fix r c assume r: "r < n" and c: "0 \<le> c \<and> c < kx"
    then have cm: "c < m" using b by simp
    have sc: "swp j k c = c" using c b by (simp add: swp_def)
    have sr: "swp i k r < n" using r b kn by (simp add: swp_def)
    have "tX T (swp i k r) c = (swp i k r = c)" using un[OF sr] c by simp
    moreover have "(swp i k r = c) = (r = c)" using c b by (auto simp: swp_def)
    ultimately show "tX T' r c = (r = c)" using eq[OF cm] sc by simp
  qed
  have 2: "\<forall>r. kx \<le> r \<and> r < n \<longrightarrow> (\<forall>c < m. \<not> tX T' r c)"
  proof (intro allI impI)
    fix r c assume r: "kx \<le> r \<and> r < n" and c: "c < m"
    have "kx \<le> swp i k r \<and> swp i k r < n" using r b kn by (simp add: swp_def)
    then show "\<not> tX T' r c" using eq[OF c] zr scm[OF c] by simp
  qed
  show ?thesis unfolding xinv_def using 1 2 by simp
qed

lemma find_pivot_None_mono:
  "find_pivot M n m k = None \<Longrightarrow> k \<le> k' \<Longrightarrow> find_pivot M n m k' = None"
  unfolding find_pivot_None by auto

lemma loop_step:
  assumes sel: "sel = tX \<or> sel = tZ"
    and ext: "\<And>T T' i j. extra T \<Longrightarrow> pivoted sel n i j k T T' \<Longrightarrow>
                k \<le> i \<Longrightarrow> i < n \<Longrightarrow> k \<le> j \<Longrightarrow> j < m \<Longrightarrow> extra T'"
    and inv: "loop_inv sel n m a extra k s" and ak: "a \<le> k"
  shows "\<exists>s'. elim_step sel n m k s = Inr s' \<and> loop_inv sel n m a extra (Suc k) s'"
proof -
  obtain st kk where s: "s = (st, kk)" by (cases s)
  from inv s have c: "comm_rows n m (sT st)" and sp: "in_span n (sT2 st) (sT st)"
    and e: "extra (sT st)" and k: "a \<le> kk" "kk \<le> k" "kk \<le> n" "kk \<le> m"
    and u: "ublock (sel (sT st)) n a kk"
    and ex: "kk < k \<longrightarrow> find_pivot (sel (sT st)) n m kk = None"
    by (auto simp: loop_inv_def)
  show ?thesis
  proof (cases "find_pivot (sel (sT st)) n m k")
    case None
    have "find_pivot (sel (sT st)) n m kk = None"
      using ex None k(2) by (cases "kk < k") auto
    then show ?thesis
      using elim_step_None[where sel = sel and st = st, OF None] s c sp e k u
      by (auto simp: loop_inv_def)
  next
    case (Some ij)
    obtain i j where ij: "ij = (i, j)" by (cases ij)
    have kk: "kk = k"
    proof (rule ccontr)
      assume "kk \<noteq> k"
      then have "find_pivot (sel (sT st)) n m k = None"
        using ex k(2) find_pivot_None_mono[of "sel (sT st)" n m kk k] by auto
      with Some show False by simp
    qed
    from find_pivot_Some[of "sel (sT st)" n m k i j] Some ij
    have b: "k \<le> i" "i < n" "k \<le> j" "j < m" "sel (sT st) i j" by auto
    from elim_step_Some[OF sel c sp, of k i j kk] Some ij obtain st' where
      st': "elim_step sel n m k (st, kk) = Inr (st', Suc k)" "comm_rows n m (sT st')"
        "in_span n (sT2 st') (sT st')" "pivoted sel n i j k (sT st) (sT st')"
      by auto
    have u': "ublock (sel (sT st')) n a (Suc k)"
      using ublock_step[OF st'(4) sel _ ak b(1,2,3,5)] u kk by simp
    have e': "extra (sT st')" using ext[OF e st'(4) b(1,2,3,4)] .
    show ?thesis
      using st' u' e' b ak s by (auto simp: loop_inv_def)
  qed
qed

lemma loop_run:
  assumes sel: "sel = tX \<or> sel = tZ"
    and ext: "\<And>T T' i j k. extra T \<Longrightarrow> pivoted sel n i j k T T' \<Longrightarrow> a \<le> k \<Longrightarrow>
                k \<le> i \<Longrightarrow> i < n \<Longrightarrow> k \<le> j \<Longrightarrow> j < m \<Longrightarrow> extra T'"
    and le: "k0 \<le> k1" and ak: "a \<le> k0"
    and inv: "loop_inv sel n m a extra k0 s"
  shows "\<exists>s'. foldE (elim_step sel n m) [k0..<k1] s = Inr s' \<and> loop_inv sel n m a extra k1 s'"
  using le
proof (induction k1 rule: dec_induct)
  case base
  show ?case using inv by simp
next
  case (step k)
  then obtain s1 where s1: "foldE (elim_step sel n m) [k0..<k] s = Inr s1"
    "loop_inv sel n m a extra k s1" by auto
  have ak': "a \<le> k" using ak step.hyps by simp
  have "\<exists>s'. elim_step sel n m k s1 = Inr s' \<and> loop_inv sel n m a extra (Suc k) s'"
  proof (rule loop_step[OF sel _ s1(2) ak'])
    fix T T' i j
    assume "extra T" "pivoted sel n i j k T T'" "k \<le> i" "i < n" "k \<le> j" "j < m"
    then show "extra T'" using ext[of T i j k T'] ak' by simp
  qed
  then obtain s' where
    s': "elim_step sel n m k s1 = Inr s'" "loop_inv sel n m a extra (Suc k) s'" by blast
  have "[k0..<Suc k] = [k0..<k] @ [k]" using step.hyps by simp
  then show ?case using s1 s' by (simp add: foldE_append foldE_single del: foldE.simps)
qed



section \<open>The gate-emitting stages\<close>

lemma post_loops_Z_zero:
  assumes p: "post_loops n m kx kz T" and a: "kz \<le> a" "a < n" and b: "b < m"
  shows "\<not> tZ T a b"
proof -
  from p have k: "kx \<le> kz" "kz \<le> n" "kz \<le> m" and c: "comm_rows n m T"
    and x: "xinv n m kx (tX T)" and u: "ublock (tZ T) n kx kz"
    and f: "find_pivot (tZ T) n m kz = None"
    by (auto simp: post_loops_def)
  have hi: "\<And>c. kx \<le> c \<Longrightarrow> c < m \<Longrightarrow> \<not> tZ T a c"
  proof -
    fix c assume c: "kx \<le> c" "c < m"
    show "\<not> tZ T a c"
    proof (cases "c < kz")
      case True
      then show ?thesis using u a c by (auto simp: ublock_def)
    next
      case False
      then show ?thesis using f a c unfolding find_pivot_None by auto
    qed
  qed
  show ?thesis
  proof (cases "kx \<le> b")
    case True
    then show ?thesis using hi b by simp
  next
    case False
    then have bk: "b < kx" by simp
    then have bn: "b < n" using k by simp
    have xa: "\<And>c. c < m \<Longrightarrow> \<not> tX T a c" using x a k by (auto simp: xinv_def)
    have xb: "\<And>c. c < kx \<Longrightarrow> tX T b c = (b = c)" using x bn by (auto simp: xinv_def ublock_def)
    have "anti m T b a = par m (\<lambda>c. c = b \<and> tZ T a b)"
      unfolding anti_def
    proof (rule par_cong)
      fix c assume cm: "c < m"
      show "((tX T b c \<and> tZ T a c) \<noteq> (tZ T b c \<and> tX T a c)) = (c = b \<and> tZ T a b)"
      proof (cases "c < kx")
        case True
        then show ?thesis using xb[OF True] xa[OF cm] by auto
      next
        case False
        then have "\<not> tZ T a c" using hi cm by simp
        moreover have "c \<noteq> b" using False bk by simp
        ultimately show ?thesis using xa[OF cm] by simp
      qed
    qed
    then have "anti m T b a = tZ T a b" using b by (simp add: par_single)
    moreover have "\<not> anti m T b a" using c bn a by (simp add: comm_rows_def)
    ultimately show ?thesis by simp
  qed
qed

subsection \<open>Swap diag Z to X\<close>

lemma h_step_sel [simp]:
  "sT (h_step j st) = h_op j (sT st)" "sT2 (h_step j st) = h_op j (sT2 st)"
  "qc (h_step j st) = qc st @ [H_gate j]"
  by (simp_all add: h_step_def)

lemma fold_h_step:
  "distinct js \<Longrightarrow>
   (\<forall>a b. tX (sT (fold h_step js st)) a b = (if b \<in> set js then tZ (sT st) a b else tX (sT st) a b)) \<and>
   (\<forall>a b. tZ (sT (fold h_step js st)) a b = (if b \<in> set js then tX (sT st) a b else tZ (sT st) a b)) \<and>
   comm_rows n m (sT (fold h_step js st)) = comm_rows n m (sT st)"
proof (induction js arbitrary: st)
  case Nil
  show ?case by simp
next
  case (Cons j js)
  from Cons.prems have d: "distinct js" "j \<notin> set js" by auto
  show ?case using Cons.IH[OF d(1), of "h_step j st"] d(2) by auto
qed

lemma fold_h_step_span:
  "in_span n (sT2 st) (sT st) \<Longrightarrow>
   in_span n (sT2 (fold h_step js st)) (sT (fold h_step js st))"
proof (induction js arbitrary: st)
  case Nil
  then show ?case by simp
next
  case (Cons j js)
  have "in_span n (sT2 (h_step j st)) (sT (h_step j st))"
    using in_span_h_op[OF Cons.prems] by simp
  from Cons.IH[OF this] show ?case by simp
qed

lemma stage3:
  assumes p: "post_loops n m kx kz (sT st)"
  shows "inv4 n m kz (sT (fold h_step [kx..<kz] st))"
proof -
  let ?T = "sT st" and ?T' = "sT (fold h_step [kx..<kz] st)"
  from p have k: "kx \<le> kz" "kz \<le> n" "kz \<le> m" and c: "comm_rows n m ?T"
    and x: "xinv n m kx (tX ?T)" and u: "ublock (tZ ?T) n kx kz"
    by (auto simp: post_loops_def)
  note f = fold_h_step[of "[kx..<kz]" st n m, simplified]
  have X': "\<And>a b. tX ?T' a b = (if kx \<le> b \<and> b < kz then tZ ?T a b else tX ?T a b)"
    using f by simp
  have Z': "\<And>a b. tZ ?T' a b = (if kx \<le> b \<and> b < kz then tX ?T a b else tZ ?T a b)"
    using f by simp
  have c': "comm_rows n m ?T'" using f c by simp
  have 1: "\<forall>a < n. \<forall>b < kz. tX ?T' a b = (a = b)"
    using X' x u by (auto simp: xinv_def ublock_def)
  have 2: "\<forall>a. kz \<le> a \<and> a < n \<longrightarrow> (\<forall>b < m. \<not> tX ?T' a b \<and> \<not> tZ ?T' a b)"
  proof (intro allI impI)
    fix a b assume a: "kz \<le> a \<and> a < n" and b: "b < m"
    have xz: "\<not> tX ?T a b" using x a b k by (auto simp: xinv_def)
    have zz: "\<not> tZ ?T a b" using post_loops_Z_zero[OF p] a b by simp
    show "\<not> tX ?T' a b \<and> \<not> tZ ?T' a b" using X' Z' xz zz by simp
  qed
  show ?thesis unfolding inv4_def using k c' 1 2 by simp
qed

subsection \<open>Loops that clear one entry per step\<close>

lemma fold_clear_aux:
  "(\<forall>p \<in> set ps. \<forall>s. I s \<longrightarrow>
       I (f p s) \<and> \<not> E (f p s) p \<and> (\<forall>q. \<not> E s q \<longrightarrow> \<not> E (f p s) q)) \<Longrightarrow>
   I s \<Longrightarrow>
   I (fold f ps s) \<and> (\<forall>p \<in> set ps. \<not> E (fold f ps s) p) \<and>
   (\<forall>q. \<not> E s q \<longrightarrow> \<not> E (fold f ps s) q)"
proof (induction ps arbitrary: s)
  case Nil
  then show ?case by simp
next
  case (Cons p ps)
  have 1: "I (f p s) \<and> \<not> E (f p s) p \<and> (\<forall>q. \<not> E s q \<longrightarrow> \<not> E (f p s) q)"
    using Cons.prems by simp
  have 0: "\<forall>p \<in> set ps. \<forall>s. I s \<longrightarrow>
       I (f p s) \<and> \<not> E (f p s) p \<and> (\<forall>q. \<not> E s q \<longrightarrow> \<not> E (f p s) q)"
    using Cons.prems(1) by simp
  have i: "I (f p s)" using 1 by simp
  note 2 = Cons.IH[OF 0 i]
  show ?case unfolding fold_Cons comp_apply set_simps using 1 2 by blast
qed

lemma fold_clear:
  assumes step: "\<And>p s. p \<in> set ps \<Longrightarrow> I s \<Longrightarrow>
                   I (f p s) \<and> \<not> E (f p s) p \<and> (\<forall>q. \<not> E s q \<longrightarrow> \<not> E (f p s) q)"
    and "I s"
  shows "I (fold f ps s) \<and> (\<forall>p \<in> set ps. \<not> E (fold f ps s) p) \<and>
         (\<forall>q. \<not> E s q \<longrightarrow> \<not> E (fold f ps s) q)"
  by (rule fold_clear_aux) (use assms in blast)+

subsection \<open>Eliminate off-diag X\<close>

lemma cnot_step_cases:
  "cnot_step (i, j) st = (if tX (sT st) i j
     then \<lparr>sT = cnot i j (sT st), sT2 = cnot i j (sT2 st), qc = qc st @ [CX_gate i j]\<rparr> else st)"
  by (simp add: cnot_step_def)

lemma cnot_step_inv:
  assumes i4: "inv4 n m kz (sT st) \<and> in_span n (sT2 st) (sT st)" and ij: "i < kz" "kz \<le> j" "j < m"
  shows "(inv4 n m kz (sT (cnot_step (i, j) st)) \<and>
          in_span n (sT2 (cnot_step (i, j) st)) (sT (cnot_step (i, j) st))) \<and>
         \<not> (i < n \<and> tX (sT (cnot_step (i, j) st)) i j) \<and>
         (\<forall>q. \<not> (fst q < n \<and> tX (sT st) (fst q) (snd q)) \<longrightarrow>
              \<not> (fst q < n \<and> tX (sT (cnot_step (i, j) st)) (fst q) (snd q)))"
proof (cases "tX (sT st) i j")
  case False
  then show ?thesis using i4 by (simp add: cnot_step_cases)
next
  case True
  let ?T = "sT st"
  from i4 have k: "kz \<le> n" "kz \<le> m" and c: "comm_rows n m ?T"
    and u: "\<And>a b. a < n \<Longrightarrow> b < kz \<Longrightarrow> tX ?T a b = (a = b)"
    and z: "\<And>a b. kz \<le> a \<Longrightarrow> a < n \<Longrightarrow> b < m \<Longrightarrow> \<not> tX ?T a b \<and> \<not> tZ ?T a b"
    and sp: "in_span n (sT2 st) ?T"
    by (auto simp: inv4_def)
  have s: "sT (cnot_step (i, j) st) = cnot i j ?T" "sT2 (cnot_step (i, j) st) = cnot i j (sT2 st)"
    using True by (simp_all add: cnot_step_cases)
  have ne: "i \<noteq> j" "i < m" "i < n" using ij k by auto
  have Xi: "\<And>a. a < n \<Longrightarrow> tX ?T a i = (a = i)" using u ij by simp
  have c': "comm_rows n m (cnot i j ?T)" using c ne ij by simp
  have 1: "\<forall>a < n. \<forall>b < kz. tX (cnot i j ?T) a b = (a = b)" using u ij by auto
  have 2: "\<forall>a. kz \<le> a \<and> a < n \<longrightarrow> (\<forall>b < m. \<not> tX (cnot i j ?T) a b \<and> \<not> tZ (cnot i j ?T) a b)"
    using z ij ne by auto
  have 3: "\<not> tX (cnot i j ?T) i j" using True Xi ne by simp
  have 4: "\<forall>q. \<not> (fst q < n \<and> tX ?T (fst q) (snd q)) \<longrightarrow>
              \<not> (fst q < n \<and> tX (cnot i j ?T) (fst q) (snd q))"
    using Xi True by auto
  show ?thesis unfolding s inv4_def using k c' 1 2 3 4 in_span_cnot[OF sp] by simp
qed

lemma stage4:
  assumes "inv4 n m kz (sT st)" "in_span n (sT2 st) (sT st)"
  shows "inv5 n m kz (sT (fold cnot_step (List.product [0..<kz] [kz..<m]) st)) \<and>
         in_span n (sT2 (fold cnot_step (List.product [0..<kz] [kz..<m]) st))
                   (sT (fold cnot_step (List.product [0..<kz] [kz..<m]) st))"
proof -
  let ?ps = "List.product [0..<kz] [kz..<m]"
  let ?I = "\<lambda>s :: state. inv4 n m kz (sT s) \<and> in_span n (sT2 s) (sT s)"
  let ?E = "\<lambda>(s :: state) q. fst q < n \<and> tX (sT s) (fst q) (snd q)"
  have "?I (fold cnot_step ?ps st) \<and> (\<forall>p \<in> set ?ps. \<not> ?E (fold cnot_step ?ps st) p) \<and>
        (\<forall>q. \<not> ?E st q \<longrightarrow> \<not> ?E (fold cnot_step ?ps st) q)"
  proof (rule fold_clear[where I = ?I and E = ?E])
    fix p s assume p: "p \<in> set ?ps" and I: "?I s"
    obtain i j where ij: "p = (i, j)" by (cases p)
    with p have b: "i < kz" "kz \<le> j" "j < m" by auto
    show "?I (cnot_step p s) \<and> \<not> ?E (cnot_step p s) p \<and>
          (\<forall>q. \<not> ?E s q \<longrightarrow> \<not> ?E (cnot_step p s) q)"
      using cnot_step_inv[OF I b] unfolding ij by simp
  next
    show "?I st" using assms by simp
  qed
  then have I: "inv4 n m kz (sT (fold cnot_step ?ps st))"
    and sp: "in_span n (sT2 (fold cnot_step ?ps st)) (sT (fold cnot_step ?ps st))"
    and cl: "\<And>i j. i < kz \<Longrightarrow> kz \<le> j \<Longrightarrow> j < m \<Longrightarrow> i < n \<Longrightarrow> \<not> tX (sT (fold cnot_step ?ps st)) i j"
    by auto
  have "inv5 n m kz (sT (fold cnot_step ?ps st))"
    unfolding inv5_def using I cl unfolding inv4_def
    by (metis (no_types, lifting) leI le_trans less_le_trans not_less)
  then show ?thesis using sp by simp
qed



subsection \<open>Eliminate off-diag Z\<close>

lemma cz_step_cases:
  "cz_step (i, j) st = (if tZ (sT st) i j
     then \<lparr>sT = cz i j (sT st), sT2 = cz i j (sT2 st),
           qc = qc st @ [H_gate j, CX_gate i j, H_gate j]\<rparr> else st)"
  by (simp add: cz_step_def)

lemma inv5_Z_sym:
  assumes "inv5 n m kz T" "a < kz" "b < kz"
  shows "tZ T a b = tZ T b a"
proof -
  from assms have k: "kz \<le> n" "kz \<le> m" and c: "comm_rows n m T"
    and x: "\<And>a b. a < n \<Longrightarrow> b < m \<Longrightarrow> tX T a b = (a = b \<and> b < kz)"
    by (auto simp: inv5_def)
  have an: "a < n" "b < n" "a < m" "b < m" using assms(2,3) k by auto
  have "anti m T a b = par m (\<lambda>c. (c = a \<and> tZ T b a) \<noteq> (c = b \<and> tZ T a b))"
    unfolding anti_def
  proof (rule par_cong)
    fix c assume "c < m"
    then show "((tX T a c \<and> tZ T b c) \<noteq> (tZ T a c \<and> tX T b c)) =
               ((c = a \<and> tZ T b a) \<noteq> (c = b \<and> tZ T a b))"
      using x[OF an(1), of c] x[OF an(2), of c] assms(2,3) by auto
  qed
  also have "\<dots> = (par m (\<lambda>c. c = a \<and> tZ T b a) \<noteq> par m (\<lambda>c. c = b \<and> tZ T a b))"
    by (rule par_xor)
  also have "\<dots> = (tZ T b a \<noteq> tZ T a b)"
    unfolding par_single using an by simp
  finally have "anti m T a b = (tZ T b a \<noteq> tZ T a b)" .
  moreover have "\<not> anti m T a b" using c an by (simp add: comm_rows_def)
  ultimately show ?thesis by auto
qed

lemma cz_step_inv:
  assumes i5: "inv5 n m kz (sT st) \<and> in_span n (sT2 st) (sT st)" and ij: "j < i" "i < kz"
  shows "(inv5 n m kz (sT (cz_step (i, j) st)) \<and>
          in_span n (sT2 (cz_step (i, j) st)) (sT (cz_step (i, j) st))) \<and>
         \<not> (tZ (sT (cz_step (i, j) st)) i j) \<and>
         (\<forall>q. \<not> (fst q < n \<and> tZ (sT st) (fst q) (snd q)) \<longrightarrow>
              \<not> (fst q < n \<and> tZ (sT (cz_step (i, j) st)) (fst q) (snd q)))"
proof (cases "tZ (sT st) i j")
  case False
  then show ?thesis using i5 by (simp add: cz_step_cases)
next
  case True
  let ?T = "sT st"
  from i5 have i5': "inv5 n m kz ?T" and sp: "in_span n (sT2 st) ?T" by auto
  from i5' have k: "kz \<le> n" "kz \<le> m" and c: "comm_rows n m ?T"
    and x: "\<And>a b. a < n \<Longrightarrow> b < m \<Longrightarrow> tX ?T a b = (a = b \<and> b < kz)"
    and z: "\<And>a b. kz \<le> a \<Longrightarrow> a < n \<Longrightarrow> b < m \<Longrightarrow> \<not> tZ ?T a b"
    by (auto simp: inv5_def)
  have s: "sT (cz_step (i, j) st) = cz i j ?T" "sT2 (cz_step (i, j) st) = cz i j (sT2 st)"
    using True by (simp_all add: cz_step_cases)
  have ne: "i \<noteq> j" "i < m" "j < m" "i < n" "j < n" "j < kz" using ij k by auto
  have Xi: "\<And>a. a < n \<Longrightarrow> tX ?T a i = (a = i)" using x ne ij by auto
  have Xj: "\<And>a. a < n \<Longrightarrow> tX ?T a j = (a = j)" using x ne by auto
  have sym: "tZ ?T j i" using inv5_Z_sym[OF i5' ij(2) ne(6)] True by simp
  have c': "comm_rows n m (cz i j ?T)" using c ne by simp
  have X': "\<And>a b. tX (cz i j ?T) a b = tX ?T a b" using ne by (simp add: cz_sel)
  have Z': "\<And>a b. a < n \<Longrightarrow> tZ (cz i j ?T) a b =
     (if b = j then tZ ?T a j \<noteq> (a = i) else if b = i then tZ ?T a i \<noteq> (a = j) else tZ ?T a b)"
    using ne Xi Xj by (simp add: cz_sel)
  have 2: "\<forall>a. kz \<le> a \<and> a < n \<longrightarrow> (\<forall>b < m. \<not> tZ (cz i j ?T) a b)"
    using z Z' ne ij by auto
  have 3: "\<not> tZ (cz i j ?T) i j" using Z'[OF ne(4)] True ne by simp
  have 4: "\<forall>q. \<not> (fst q < n \<and> tZ ?T (fst q) (snd q)) \<longrightarrow>
              \<not> (fst q < n \<and> tZ (cz i j ?T) (fst q) (snd q))"
    using Z' True sym by auto
  have "inv5 n m kz (cz i j ?T)"
    unfolding inv5_def using k c' X' x 2 by simp
  then show ?thesis unfolding s using 3 4 in_span_cz[OF sp] by simp
qed

lemma set_lower_pairs: "set (lower_pairs kz) = {(i, j). j < i \<and> i < kz}"
proof -
  have "(a, b) \<in> set (lower_pairs kz) \<longleftrightarrow> b < a \<and> a < kz" for a b
  proof
    assume "(a, b) \<in> set (lower_pairs kz)"
    then show "b < a \<and> a < kz" by (auto simp: lower_pairs_def)
  next
    assume h: "b < a \<and> a < kz"
    then have "a \<in> {Suc 0..<kz}" "(a, b) \<in> Pair a ` {0..<a}" by auto
    then show "(a, b) \<in> set (lower_pairs kz)" unfolding lower_pairs_def by auto
  qed
  then show ?thesis by auto
qed

lemma stage5:
  assumes "inv5 n m kz (sT st)" "in_span n (sT2 st) (sT st)"
  shows "inv6 n m kz (sT (fold cz_step (lower_pairs kz) st)) \<and>
         in_span n (sT2 (fold cz_step (lower_pairs kz) st))
                   (sT (fold cz_step (lower_pairs kz) st))"
proof -
  let ?ps = "lower_pairs kz"
  let ?I = "\<lambda>s :: state. inv5 n m kz (sT s) \<and> in_span n (sT2 s) (sT s)"
  let ?E = "\<lambda>(s :: state) q. tZ (sT s) (fst q) (snd q)"
  let ?E' = "\<lambda>(s :: state) q. fst q < n \<and> tZ (sT s) (fst q) (snd q)"
  have "?I (fold cz_step ?ps st) \<and> (\<forall>p \<in> set ?ps. \<not> ?E' (fold cz_step ?ps st) p) \<and>
        (\<forall>q. \<not> ?E' st q \<longrightarrow> \<not> ?E' (fold cz_step ?ps st) q)"
  proof (rule fold_clear[where I = ?I and E = ?E'])
    fix p s assume p: "p \<in> set ?ps" and I: "?I s"
    obtain i j where ij: "p = (i, j)" by (cases p)
    with p have b: "j < i" "i < kz" by (auto simp: set_lower_pairs)
    show "?I (cz_step p s) \<and> \<not> ?E' (cz_step p s) p \<and>
          (\<forall>q. \<not> ?E' s q \<longrightarrow> \<not> ?E' (cz_step p s) q)"
      using cz_step_inv[OF I b] unfolding ij by simp
  next
    show "?I st" using assms by simp
  qed
  then have I: "inv5 n m kz (sT (fold cz_step ?ps st))"
    and sp: "in_span n (sT2 (fold cz_step ?ps st)) (sT (fold cz_step ?ps st))"
    and cl: "\<And>i j. j < i \<Longrightarrow> i < kz \<Longrightarrow> i < n \<Longrightarrow> \<not> tZ (sT (fold cz_step ?ps st)) i j"
    by (auto simp: set_lower_pairs)
  let ?T = "sT (fold cz_step ?ps st)"
  from I have k: "kz \<le> n" "kz \<le> m"
    and x: "\<forall>a < n. \<forall>b < m. tX ?T a b = (a = b \<and> b < kz)"
    and z: "\<And>a b. kz \<le> a \<Longrightarrow> a < n \<Longrightarrow> b < m \<Longrightarrow> \<not> tZ ?T a b"
    by (auto simp: inv5_def)
  have off: "\<not> tZ ?T a b" if a: "a < n" and b: "b < kz" and ab: "a \<noteq> b" for a b
  proof (cases "a < kz")
    case False
    then show ?thesis using z[of a b] a b k by simp
  next
    case True
    show ?thesis
    proof (cases "b < a")
      case True
      then show ?thesis using cl[of b a] \<open>a < kz\<close> a by simp
    next
      case False
      then have "a < b" using ab by simp
      then have "\<not> tZ ?T b a" using cl[of a b] b k by simp
      then show ?thesis using inv5_Z_sym[OF I True b] by simp
    qed
  qed
  have "inv6 n m kz ?T" unfolding inv6_def using k x off by simp
  then show ?thesis using sp by simp
qed

subsection \<open>Eliminate diag Z and switch X and Z\<close>

lemma final_step_sel:
  "sT (final_step i st) = h_op i (if tZ (sT st) i i then s_op i (sT st) else sT st)"
  "sT2 (final_step i st) = h_op i (if tZ (sT st) i i then s_op i (sT2 st) else sT2 st)"
  by (simp_all add: final_step_def s_step_def)

lemma final_step_inv:
  assumes i7: "inv7 n m kz i (sT st)" and sp: "in_span n (sT2 st) (sT st)"
    and b: "i < kz" "kz \<le> n" "kz \<le> m"
  shows "inv7 n m kz (Suc i) (sT (final_step i st)) \<and>
         in_span n (sT2 (final_step i st)) (sT (final_step i st))"
proof -
  let ?T = "sT st"
  from i7 have x: "\<And>a b. a < n \<Longrightarrow> b < m \<Longrightarrow> tX ?T a b = (a = b \<and> i \<le> b \<and> b < kz)"
    and z: "\<And>a b. a < n \<Longrightarrow> i \<le> b \<Longrightarrow> b < kz \<Longrightarrow> a \<noteq> b \<Longrightarrow> \<not> tZ ?T a b"
    by (auto simp: inv7_def)
  have im: "i < m" "i < n" using b by auto
  show ?thesis
  proof (cases "tZ ?T i i")
    case True
    have s: "sT (final_step i st) = h_op i (s_op i ?T)"
      "sT2 (final_step i st) = h_op i (s_op i (sT2 st))"
      using True by (simp_all add: final_step_sel)
    have 1: "\<forall>a < n. \<forall>b < m. tX (h_op i (s_op i ?T)) a b = (a = b \<and> Suc i \<le> b \<and> b < kz)"
      using x z True im b by (auto simp: Suc_le_eq)
    have 2: "\<forall>a < n. \<forall>b. Suc i \<le> b \<and> b < kz \<longrightarrow> a \<noteq> b \<longrightarrow> \<not> tZ (h_op i (s_op i ?T)) a b"
      using z by auto
    show ?thesis unfolding s inv7_def using 1 2 in_span_h_op[OF in_span_s_op[OF sp]] by simp
  next
    case False
    have s: "sT (final_step i st) = h_op i ?T" "sT2 (final_step i st) = h_op i (sT2 st)"
      using False by (simp_all add: final_step_sel)
    have 1: "\<forall>a < n. \<forall>b < m. tX (h_op i ?T) a b = (a = b \<and> Suc i \<le> b \<and> b < kz)"
      using x z False im b by (auto simp: Suc_le_eq)
    have 2: "\<forall>a < n. \<forall>b. Suc i \<le> b \<and> b < kz \<longrightarrow> a \<noteq> b \<longrightarrow> \<not> tZ (h_op i ?T) a b"
      using z by auto
    show ?thesis unfolding s inv7_def using 1 2 in_span_h_op[OF sp] by simp
  qed
qed

lemma fold_final_step:
  assumes "kz \<le> n" "kz \<le> m" "i \<le> kz"
    and "inv7 n m kz 0 (sT st)" "in_span n (sT2 st) (sT st)"
  shows "inv7 n m kz i (sT (fold final_step [0..<i] st)) \<and>
         in_span n (sT2 (fold final_step [0..<i] st)) (sT (fold final_step [0..<i] st))"
  using assms(3)
proof (induction i)
  case 0
  show ?case using assms by simp
next
  case (Suc i)
  then have IH: "inv7 n m kz i (sT (fold final_step [0..<i] st))"
    "in_span n (sT2 (fold final_step [0..<i] st)) (sT (fold final_step [0..<i] st))"
    by auto
  have "i < kz" using Suc.prems by simp
  from final_step_inv[OF IH this assms(1,2)] show ?case by simp
qed

lemma stage6:
  assumes "inv6 n m kz (sT st)" "in_span n (sT2 st) (sT st)"
  shows "(\<forall>a < n. \<forall>b < m. \<not> tX (sT (fold final_step [0..<kz] st)) a b) \<and>
         in_span n (sT2 (fold final_step [0..<kz] st)) (sT (fold final_step [0..<kz] st))"
proof -
  from assms(1) have k: "kz \<le> n" "kz \<le> m" and i7: "inv7 n m kz 0 (sT st)"
    by (auto simp: inv6_def inv7_def)
  from fold_final_step[OF k order_refl i7 assms(2)]
  show ?thesis by (auto simp: inv7_def)
qed

theorem stages_zero:
  assumes p: "post_loops n m kx kz (sT st)" and sp: "in_span n (sT2 st) (sT st)"
  shows "\<not> any_true (tX (sT (clifford_stages m kx kz st))) n m \<and>
         \<not> any_true (tX (sT2 (clifford_stages m kx kz st))) n m"
proof -
  let ?s3 = "fold h_step [kx..<kz] st"
  let ?s4 = "fold cnot_step (List.product [0..<kz] [kz..<m]) ?s3"
  let ?s5 = "fold cz_step (lower_pairs kz) ?s4"
  let ?s6 = "fold final_step [0..<kz] ?s5"
  have 3: "inv4 n m kz (sT ?s3)" "in_span n (sT2 ?s3) (sT ?s3)"
    using stage3[OF p] fold_h_step_span[OF sp] by auto
  have 4: "inv5 n m kz (sT ?s4)" "in_span n (sT2 ?s4) (sT ?s4)"
    using stage4[OF 3] by auto
  have 5: "inv6 n m kz (sT ?s5)" "in_span n (sT2 ?s5) (sT ?s5)"
    using stage5[OF 4] by auto
  have 6: "\<forall>a < n. \<forall>b < m. \<not> tX (sT ?s6) a b" "in_span n (sT2 ?s6) (sT ?s6)"
    using stage6[OF 5] by auto
  have 7: "\<forall>a < n. \<forall>b < m. \<not> tX (sT2 ?s6) a b"
    using in_span_X_zero[OF 6(2)] 6(1) by blast
  have e: "clifford_stages m kx kz st = ?s6" by (simp add: clifford_stages_def)
  show ?thesis unfolding e any_true_def list_ex_iff using 6(1) 7 by auto
qed



section \<open>The loop bound\<close>

lemma elim_step_shape:
  assumes "elim_step sel n m k (st, kk) = Inr s'"
  shows "(find_pivot (sel (sT st)) n m k = None \<and> s' = (st, kk)) \<or>
         (find_pivot (sel (sT st)) n m k \<noteq> None \<and> snd s' = Suc k)"
  using assms by (auto simp: elim_step_def Let_def split: option.splits sum.splits)

lemma foldE_snoc_Inr:
  assumes "foldE f (xs @ [x]) s = Inr s'"
  shows "\<exists>s1. foldE f xs s = Inr s1 \<and> f x s1 = Inr s'"
  using assms by (auto simp: foldE_append foldE_single simp del: foldE.simps split: sum.splits)

lemma run_prefix:
  assumes "k0 \<le> k1" and "foldE (elim_step sel n m) [k0..<k1] (st, k0) = Inr (st', kk')"
  shows "k0 \<le> kk' \<and> kk' \<le> k1 \<and>
         foldE (elim_step sel n m) [k0..<kk'] (st, k0) = Inr (st', kk') \<and>
         (kk' < k1 \<longrightarrow> find_pivot (sel (sT st')) n m kk' = None)"
  using assms
proof (induction k1 arbitrary: st' kk' rule: dec_induct)
  case base
  then show ?case by simp
next
  case (step k)
  have u: "[k0..<Suc k] = [k0..<k] @ [k]" using step.hyps by simp
  from foldE_snoc_Inr[OF step.prems[unfolded u]] obtain s1 where
    s1: "foldE (elim_step sel n m) [k0..<k] (st, k0) = Inr s1"
        "elim_step sel n m k s1 = Inr (st', kk')" by blast
  obtain st1 kk1 where e: "s1 = (st1, kk1)" by (cases s1)
  from step.IH[OF s1(1)[unfolded e]] have IH: "k0 \<le> kk1" "kk1 \<le> k"
    "foldE (elim_step sel n m) [k0..<kk1] (st, k0) = Inr (st1, kk1)"
    "kk1 < k \<longrightarrow> find_pivot (sel (sT st1)) n m kk1 = None" by auto
  from elim_step_shape[OF s1(2)[unfolded e]] show ?case
  proof
    assume a: "find_pivot (sel (sT st1)) n m k = None \<and> (st', kk') = (st1, kk1)"
    then have "find_pivot (sel (sT st1)) n m kk1 = None" using IH(2,4) by (cases "kk1 < k") auto
    then show ?thesis using a IH by auto
  next
    assume a: "find_pivot (sel (sT st1)) n m k \<noteq> None \<and> snd (st', kk') = Suc k"
    then have "kk' = Suc k" by simp
    then show ?thesis using step.prems step.hyps by simp
  qed
qed

lemma run_noop:
  assumes "find_pivot (sel (sT st)) n m k = None"
  shows "foldE (elim_step sel n m) [k..<b] (st, kk) = Inr (st, kk)"
proof (cases "k \<le> b")
  case False
  then show ?thesis by simp
next
  case True
  then show ?thesis
  proof (induction b rule: dec_induct)
    case base
    show ?case by simp
  next
    case (step j)
    have u: "[k..<Suc j] = [k..<j] @ [j]" using step.hyps by simp
    have "find_pivot (sel (sT st)) n m j = None"
      using find_pivot_None_mono[OF assms step.hyps(1)] .
    then have "elim_step sel n m j (st, kk) = Inr (st, kk)" by (rule elim_step_None)
    then show ?case unfolding u using step.IH
      by (simp add: foldE_append foldE_single del: foldE.simps)
  qed
qed

lemma find_pivot_last [simp]: "find_pivot M n m n = None"
  unfolding find_pivot_None by auto

lemma run_extend:
  assumes "k0 \<le> n" and "foldE (elim_step sel n m) [k0..<n] (st, k0) = Inr (st', kk')"
    and "kk' \<le> r"
  shows "foldE (elim_step sel n m) [k0..<r] (st, k0) = Inr (st', kk')"
proof -
  from run_prefix[OF assms(1,2)] have p: "k0 \<le> kk'" "kk' \<le> n"
    "foldE (elim_step sel n m) [k0..<kk'] (st, k0) = Inr (st', kk')"
    "kk' < n \<longrightarrow> find_pivot (sel (sT st')) n m kk' = None" by auto
  have ex: "find_pivot (sel (sT st')) n m kk' = None"
    using p(2,4) by (cases "kk' < n") auto
  have "[k0..<r] = [k0..<kk'] @ [kk'..<r]"
    using p(1) assms(3) by (metis le_Suc_ex upt_add_eq_append)
  then show ?thesis using p(3) run_noop[where sel = sel and st = st', OF ex]
    by (simp add: foldE_append del: foldE.simps)
qed

section \<open>The initial tableau\<close>

lemma count_and_par:
  assumes "length xs = m" "length zs = m"
  shows "odd (count_and xs zs) = par m (\<lambda>k. xs ! k \<and> zs ! k)"
proof -
  have l: "length (zip xs zs) = m" using assms by simp
  have "odd (count_and xs zs) = par m (\<lambda>k. (\<lambda>(a, b). a \<and> b) (zip xs zs ! k))"
    unfolding count_and_def by (rule par_count[OF l])
  also have "\<dots> = par m (\<lambda>k. xs ! k \<and> zs ! k)"
    using assms by (intro par_cong) simp
  finally show ?thesis .
qed

lemma init_tableau_sel:
  assumes "a < length paulis" "length (px (paulis ! a)) = m" "length (pz (paulis ! a)) = m" "b < m"
  shows "tX (init_tableau paulis) a b = px (paulis ! a) ! b"
    and "tZ (init_tableau paulis) a b = pz (paulis ! a) ! b"
  using assms by (simp_all add: init_tableau_def mat_of_def)

lemma anti_init:
  assumes len: "\<forall>p \<in> set paulis. length (px p) = m \<and> length (pz p) = m"
    and i: "i < length paulis" and j: "j < length paulis"
  shows "anti m (init_tableau paulis) i j = (\<not> commutes (paulis ! i) (paulis ! j))"
proof -
  let ?p = "paulis ! i" and ?q = "paulis ! j"
  have lp: "length (px ?p) = m" "length (pz ?p) = m" "length (px ?q) = m" "length (pz ?q) = m"
    using len i j by auto
  have "anti m (init_tableau paulis) i j =
        par m (\<lambda>k. (px ?p ! k \<and> pz ?q ! k) \<noteq> (px ?q ! k \<and> pz ?p ! k))"
    unfolding anti_def using init_tableau_sel[OF i lp(1,2)] init_tableau_sel[OF j lp(3,4)]
    by (intro par_cong) auto
  also have "\<dots> = (par m (\<lambda>k. px ?p ! k \<and> pz ?q ! k) \<noteq> par m (\<lambda>k. px ?q ! k \<and> pz ?p ! k))"
    by (rule par_xor)
  also have "\<dots> = (odd (count_and (px ?p) (pz ?q)) \<noteq> odd (count_and (px ?q) (pz ?p)))"
    using count_and_par[OF lp(1,4)] count_and_par[OF lp(3,2)] by simp
  also have "\<dots> = (\<not> commutes ?p ?q)"
    unfolding commutes_def by presburger
  finally show ?thesis .
qed

lemma comm_rows_init:
  assumes "\<forall>p \<in> set paulis. length (px p) = m \<and> length (pz p) = m"
    and "\<forall>p \<in> set paulis. \<forall>q \<in> set paulis. commutes p q"
  shows "comm_rows (length paulis) m (init_tableau paulis)"
  unfolding comm_rows_def using anti_init[OF assms(1)] assms(2) by simp

section \<open>The result of the two elimination loops\<close>

lemma loops_bound_n:
  assumes comm: "comm_rows n m T"
  shows "\<exists>st1 kx st2 kz.
           foldE (elim_step tX n m) [0..<n] (\<lparr>sT = T, sT2 = T, qc = []\<rparr>, 0) = Inr (st1, kx) \<and>
           foldE (elim_step tZ n m) [kx..<n] (st1, kx) = Inr (st2, kz) \<and>
           post_loops n m kx kz (sT st2) \<and> in_span n (sT2 st2) (sT st2)"
proof -
  let ?s0 = "(\<lparr>sT = T, sT2 = T, qc = []\<rparr>, 0 :: nat)"
  have i0: "loop_inv tX n m 0 (\<lambda>T. True) 0 ?s0"
    using comm by (simp add: loop_inv_def in_span_refl ublock_def)
  have "\<exists>s'. foldE (elim_step tX n m) [0..<n] ?s0 = Inr s' \<and> loop_inv tX n m 0 (\<lambda>T. True) n s'"
    by (rule loop_run[OF _ _ _ _ i0]) simp_all
  then obtain st1 kx where 1: "foldE (elim_step tX n m) [0..<n] ?s0 = Inr (st1, kx)"
    and l1: "loop_inv tX n m 0 (\<lambda>T. True) n (st1, kx)" by auto
  from l1 have c1: "comm_rows n m (sT st1)" and sp1: "in_span n (sT2 st1) (sT st1)"
    and k1: "kx \<le> n" "kx \<le> m" and u1: "ublock (tX (sT st1)) n 0 kx"
    and e1: "kx < n \<longrightarrow> find_pivot (tX (sT st1)) n m kx = None"
    by (auto simp: loop_inv_def)
  have ex1: "find_pivot (tX (sT st1)) n m kx = None"
    using e1 k1(1) by (cases "kx < n") auto
  have x1: "xinv n m kx (tX (sT st1))"
    unfolding xinv_def
  proof (intro conjI allI impI)
    show "ublock (tX (sT st1)) n 0 kx" by (rule u1)
  next
    fix i j assume i: "kx \<le> i \<and> i < n" and j: "j < m"
    show "\<not> tX (sT st1) i j"
    proof (cases "kx \<le> j")
      case True
      then show ?thesis using ex1 i j unfolding find_pivot_None by auto
    next
      case False
      then show ?thesis using u1 i by (auto simp: ublock_def)
    qed
  qed
  have i2: "loop_inv tZ n m kx (\<lambda>T. xinv n m kx (tX T)) kx (st1, kx)"
    using c1 sp1 x1 k1 by (auto simp: loop_inv_def ublock_def)
  have "\<exists>s'. foldE (elim_step tZ n m) [kx..<n] (st1, kx) = Inr s' \<and>
             loop_inv tZ n m kx (\<lambda>T. xinv n m kx (tX T)) n s'"
  proof (rule loop_run[OF _ _ k1(1) order_refl i2])
    show "tZ = tX \<or> tZ = tZ" by simp
  next
    fix T T' i j k
    assume "xinv n m kx (tX T)" "pivoted tZ n i j k T T'" "kx \<le> k" "k \<le> i" "i < n" "k \<le> j" "j < m"
    then show "xinv n m kx (tX T')" using xinv_step[of n i j k T T' m kx] k1(2) by simp
  qed
  then obtain st2 kz where 2: "foldE (elim_step tZ n m) [kx..<n] (st1, kx) = Inr (st2, kz)"
    and l2: "loop_inv tZ n m kx (\<lambda>T. xinv n m kx (tX T)) n (st2, kz)" by auto
  from l2 have c2: "comm_rows n m (sT st2)" and sp2: "in_span n (sT2 st2) (sT st2)"
    and x2: "xinv n m kx (tX (sT st2))"
    and k2: "kx \<le> kz" "kz \<le> n" "kz \<le> m" and u2: "ublock (tZ (sT st2)) n kx kz"
    and e2: "kz < n \<longrightarrow> find_pivot (tZ (sT st2)) n m kz = None"
    by (auto simp: loop_inv_def)
  have ex2: "find_pivot (tZ (sT st2)) n m kz = None"
    using e2 k2(2) by (cases "kz < n") auto
  have "post_loops n m kx kz (sT st2)"
    unfolding post_loops_def using k2 c2 x2 u2 ex2 by simp
  then show ?thesis using 1 2 sp2 by blast
qed

lemma loops_result:
  assumes comm: "comm_rows n m T"
    and r: "(case foldE (elim_step tX n m) [0..<n] (\<lparr>sT = T, sT2 = T, qc = []\<rparr>, 0) of
               Inl e \<Rightarrow> 0
             | Inr (st1, kx) \<Rightarrow>
                 (case foldE (elim_step tZ n m) [kx..<n] (st1, kx) of
                    Inl e \<Rightarrow> 0 | Inr (st2, kz) \<Rightarrow> kz)) \<le> r"
  shows "\<exists>st1 kx st2 kz.
           foldE (elim_step tX n m) [0..<r] (\<lparr>sT = T, sT2 = T, qc = []\<rparr>, 0) = Inr (st1, kx) \<and>
           foldE (elim_step tZ n m) [kx..<r] (st1, kx) = Inr (st2, kz) \<and>
           post_loops n m kx kz (sT st2) \<and> in_span n (sT2 st2) (sT st2)"
proof -
  from loops_bound_n[OF comm] obtain st1 kx st2 kz where
    1: "foldE (elim_step tX n m) [0..<n] (\<lparr>sT = T, sT2 = T, qc = []\<rparr>, 0) = Inr (st1, kx)"
    and 2: "foldE (elim_step tZ n m) [kx..<n] (st1, kx) = Inr (st2, kz)"
    and p: "post_loops n m kx kz (sT st2)" and sp: "in_span n (sT2 st2) (sT st2)"
    by blast
  have kr: "kz \<le> r" using r 1 2 by simp
  have k: "kx \<le> kz" "kz \<le> n" using p by (auto simp: post_loops_def)
  have a: "foldE (elim_step tX n m) [0..<r] (\<lparr>sT = T, sT2 = T, qc = []\<rparr>, 0) = Inr (st1, kx)"
    using run_extend[OF _ 1] k kr by simp
  have b: "foldE (elim_step tZ n m) [kx..<r] (st1, kx) = Inr (st2, kz)"
    using run_extend[OF _ 2 kr] k by simp
  show ?thesis using a b p sp by blast
qed



section \<open>The shape of the diagonalizing circuit\<close>

lemma hcount_Nil [simp]: "hcount [] q = 0"
  by (simp add: hcount_def)

lemma hcount_snoc: "hcount (c @ [g]) = hcount_step g (hcount c)"
  by (simp add: hcount_def)

lemma hcount_snoc_H [simp]:
  "hcount (c @ [H_gate a]) q = (if q = a then Suc (hcount c a) else hcount c q)"
  by (simp add: hcount_snoc)

lemma hcount_snoc_S [simp]:
  "hcount (c @ [S_gate a]) q = (if q = a then 0 else hcount c q)"
  by (simp add: hcount_snoc)

lemma hcount_snoc_CX [simp]:
  "hcount (c @ [CX_gate a b]) q = (if q = a \<or> q = b then 0 else hcount c q)"
  by (simp add: hcount_snoc)

lemma h_runs_ok_Nil [simp]: "h_runs_ok []"
  by (simp add: h_runs_ok_def)

lemma h_runs_ok_snoc:
  "h_runs_ok (c @ [g]) = (h_runs_ok c \<and> (\<forall>q. hcount (c @ [g]) q \<le> 2))"
proof -
  have "(\<forall>k \<le> Suc (length c). \<forall>q. hcount (take k (c @ [g])) q \<le> 2) =
        ((\<forall>k \<le> length c. \<forall>q. hcount (take k (c @ [g])) q \<le> 2) \<and>
         (\<forall>q. hcount (take (Suc (length c)) (c @ [g])) q \<le> 2))"
    by (auto simp: le_Suc_eq)
  then show ?thesis by (simp add: h_runs_ok_def)
qed

lemma h_runs_ok_le2: "h_runs_ok c \<Longrightarrow> hcount c q \<le> 2"
  unfolding h_runs_ok_def by (metis order_refl take_all)

lemma circ_inv_H:
  assumes "circ_inv m B c" "a < m" "B a \<le> 1"
  shows "circ_inv m (B(a := Suc (B a))) (c @ [H_gate a])"
  using assms unfolding circ_inv_def h_runs_ok_snoc
  by (auto simp: diag_gate_def h_runs_ok_le2 intro: le_trans)

lemma circ_inv_S:
  assumes "circ_inv m B c" "a < m"
  shows "circ_inv m (B(a := 0)) (c @ [S_gate a])"
  using assms unfolding circ_inv_def h_runs_ok_snoc
  by (auto simp: diag_gate_def h_runs_ok_le2)

lemma circ_inv_CX:
  assumes "circ_inv m B c" "a < m" "b < m" "a \<noteq> b"
  shows "circ_inv m (B(a := 0, b := 0)) (c @ [CX_gate a b])"
  using assms unfolding circ_inv_def h_runs_ok_snoc
  by (auto simp: diag_gate_def h_runs_ok_le2)

lemma circ_inv_mono: "circ_inv m B c \<Longrightarrow> (\<And>q. B q \<le> B' q) \<Longrightarrow> circ_inv m B' c"
  unfolding circ_inv_def by (meson le_trans)

lemma circ_inv_le2:
  assumes "circ_inv m B c"
  shows "hcount c q \<le> 2"
  using assms unfolding circ_inv_def by (simp add: h_runs_ok_le2)

lemma fold_inv_aux:
  "(\<forall>x \<in> set xs. \<forall>s. P s \<longrightarrow> P (f x s)) \<Longrightarrow> P s \<Longrightarrow> P (fold f xs s)"
proof (induction xs arbitrary: s)
  case Nil
  then show ?case by simp
next
  case (Cons x xs)
  have 1: "P (f x s)" using Cons.prems by simp
  have 0: "\<forall>x \<in> set xs. \<forall>s. P s \<longrightarrow> P (f x s)" using Cons.prems(1) by simp
  show ?case using Cons.IH[OF 0 1] by simp
qed

lemma fold_inv:
  assumes "\<And>x s. x \<in> set xs \<Longrightarrow> P s \<Longrightarrow> P (f x s)" and "P s"
  shows "P (fold f xs s)"
proof (rule fold_inv_aux[where P = P and f = f and xs = xs and s = s])
  show "\<forall>x \<in> set xs. \<forall>s. P s \<longrightarrow> P (f x s)"
  proof (intro ballI allI impI)
    fix x s assume "x \<in> set xs" "P s"
    then show "P (f x s)" by (rule assms(1))
  qed
  show "P s" by (rule assms(2))
qed

lemma foldE_inv_aux:
  "(\<forall>x \<in> set xs. \<forall>s s'. P s \<longrightarrow> f x s = Inr s' \<longrightarrow> P s') \<Longrightarrow> P s \<Longrightarrow>
   foldE f xs s = Inr s' \<Longrightarrow> P s'"
proof (induction xs arbitrary: s)
  case Nil
  then show ?case by simp
next
  case (Cons x xs)
  from Cons.prems(3) obtain s1 where s1: "f x s = Inr s1" "foldE f xs s1 = Inr s'"
    by (cases "f x s") simp_all
  have "x \<in> set (x # xs)" by simp
  with Cons.prems(1) have "\<forall>s s'. P s \<longrightarrow> f x s = Inr s' \<longrightarrow> P s'" by blast
  then have 1: "P s1" using Cons.prems(2) s1(1) by blast
  have 0: "\<forall>x \<in> set xs. \<forall>s s'. P s \<longrightarrow> f x s = Inr s' \<longrightarrow> P s'"
    using Cons.prems(1) by (meson list.set_intros(2))
  show ?case using Cons.IH[OF 0 1 s1(2)] .
qed

lemma foldE_inv:
  assumes "\<And>x s s'. x \<in> set xs \<Longrightarrow> P s \<Longrightarrow> f x s = Inr s' \<Longrightarrow> P s'"
    and "P s" and "foldE f xs s = Inr s'"
  shows "P s'"
proof (rule foldE_inv_aux[where P = P and f = f and xs = xs and s = s and s' = s'])
  show "\<forall>x \<in> set xs. \<forall>s s'. P s \<longrightarrow> f x s = Inr s' \<longrightarrow> P s'"
  proof (intro ballI allI impI)
    fix x s s' assume "x \<in> set xs" "P s" "f x s = Inr s'"
    then show "P s'" by (rule assms(1))
  qed
  show "P s" by (rule assms(2))
  show "foldE f xs s = Inr s'" by (rule assms(3))
qed

subsection \<open>The elimination loops only add the three CNOTs of a swap\<close>

lemma elim_step_qc:
  assumes "elim_step sel n m k (st, kk) = Inr (st', kk')"
  shows "qc st' = qc st \<or>
         (\<exists>j. j \<noteq> k \<and> k \<le> j \<and> j < m \<and>
              qc st' = qc st @ [CX_gate j k, CX_gate k j, CX_gate j k])"
proof (cases "find_pivot (sel (sT st)) n m k")
  case None
  then show ?thesis using assms by (simp add: elim_step_def)
next
  case (Some ij)
  obtain i j where ij: "ij = (i, j)" by (cases ij)
  from find_pivot_Some[of "sel (sT st)" n m k i j] Some ij have b: "k \<le> j" "j < m" by auto
  show ?thesis
  proof (cases "j = k")
    case True
    then show ?thesis using assms Some ij
      by (auto simp: elim_step_def Let_def split: sum.splits)
  next
    case False
    then have "qc st' = qc st @ [CX_gate j k, CX_gate k j, CX_gate j k]"
      using assms Some ij by (auto simp: elim_step_def Let_def split: sum.splits)
    then show ?thesis using False b by blast
  qed
qed

lemma circ_inv_swap:
  assumes c: "circ_inv m (\<lambda>q. 0) c" and b: "j \<noteq> k" "k < m" "j < m"
  shows "circ_inv m (\<lambda>q. 0) (c @ [CX_gate j k, CX_gate k j, CX_gate j k])"
proof -
  have e: "(\<lambda>q. 0 :: nat)(x := 0, y := 0) = (\<lambda>q. 0)" for x y :: nat by auto
  have 1: "circ_inv m (\<lambda>q. 0) (c @ [CX_gate j k])"
    using circ_inv_CX[OF c b(3) b(2) b(1)] by (simp add: e)
  have 2: "circ_inv m (\<lambda>q. 0) ((c @ [CX_gate j k]) @ [CX_gate k j])"
    using circ_inv_CX[OF 1 b(2) b(3)] b(1) by (simp add: e)
  have 3: "circ_inv m (\<lambda>q. 0) (((c @ [CX_gate j k]) @ [CX_gate k j]) @ [CX_gate j k])"
    using circ_inv_CX[OF 2 b(3) b(2) b(1)] by (simp add: e)
  then show ?thesis by simp
qed

lemma elim_step_circ:
  assumes "elim_step sel n m k s = Inr s'" "circ_inv m (\<lambda>q. 0) (qc (fst s))"
  shows "circ_inv m (\<lambda>q. 0) (qc (fst s'))"
proof -
  obtain st kk st' kk' where e: "s = (st, kk)" "s' = (st', kk')" by (cases s, cases s')
  from elim_step_qc[OF assms(1)[unfolded e]] show ?thesis
  proof
    assume "qc st' = qc st"
    then show ?thesis using assms(2) e by simp
  next
    assume "\<exists>j. j \<noteq> k \<and> k \<le> j \<and> j < m \<and>
              qc st' = qc st @ [CX_gate j k, CX_gate k j, CX_gate j k]"
    then obtain j where j: "j \<noteq> k" "k \<le> j" "j < m"
      "qc st' = qc st @ [CX_gate j k, CX_gate k j, CX_gate j k]" by blast
    have "k < m" using j by simp
    from circ_inv_swap[OF _ j(1) this j(3)] assms(2) e j(4) show ?thesis by simp
  qed
qed

lemma loops_circ:
  assumes "foldE (elim_step sel n m) ks s = Inr s'" "circ_inv m (\<lambda>q. 0) (qc (fst s))"
  shows "circ_inv m (\<lambda>q. 0) (qc (fst s'))"
proof (rule foldE_inv[where P = "\<lambda>s :: state \<times> nat. circ_inv m (\<lambda>q. 0) (qc (fst s))"
      and f = "elim_step sel n m" and xs = ks and s = s and s' = s', OF _ assms(2) assms(1)])
  fix x and s s' :: "state \<times> nat"
  assume "circ_inv m (\<lambda>q. 0) (qc (fst s))" "elim_step sel n m x s = Inr s'"
  then show "circ_inv m (\<lambda>q. 0) (qc (fst s'))" using elim_step_circ by blast
qed

subsection \<open>The gate-emitting stages\<close>

lemma stage3_circ:
  assumes "distinct js" "\<forall>j \<in> set js. j < m" "A \<inter> set js = {}"
    and "circ_inv m (\<lambda>q. if q \<in> A then 1 else 0) (qc st)"
  shows "circ_inv m (\<lambda>q. if q \<in> A \<union> set js then 1 else 0) (qc (fold h_step js st))"
  using assms
proof (induction js arbitrary: st A)
  case Nil
  then show ?case by simp
next
  case (Cons j js)
  let ?B = "\<lambda>q. if q \<in> A then 1 else (0 :: nat)"
  have jA: "j \<notin> A" "j < m" "j \<notin> set js" using Cons.prems by auto
  have e: "?B(j := Suc (?B j)) = (\<lambda>q. if q \<in> insert j A then 1 else 0)"
    using jA by auto
  have 1: "circ_inv m (\<lambda>q. if q \<in> insert j A then 1 else 0) (qc (h_step j st))"
    using circ_inv_H[OF Cons.prems(4) jA(2)] jA(1) e by simp
  have 2: "insert j A \<inter> set js = {}" using Cons.prems jA by auto
  have 3: "distinct js" "\<forall>j \<in> set js. j < m" using Cons.prems by auto
  from Cons.IH[OF 3 2 1] show ?case by simp
qed

lemma cnot_step_circ:
  assumes "circ_inv m (\<lambda>q. 1) (qc st)" "i < kz" "kz \<le> j" "j < m"
  shows "circ_inv m (\<lambda>q. 1) (qc (cnot_step (i, j) st))"
proof (cases "tX (sT st) i j")
  case False
  then show ?thesis using assms(1) by (simp add: cnot_step_def)
next
  case True
  have "circ_inv m ((\<lambda>q. 1)(i := 0, j := 0)) (qc st @ [CX_gate i j])"
    using circ_inv_CX[OF assms(1), of i j] assms by simp
  then have "circ_inv m (\<lambda>q. 1) (qc st @ [CX_gate i j])"
    by (rule circ_inv_mono) simp
  then show ?thesis using True by (simp add: cnot_step_def)
qed

lemma cz_step_circ:
  assumes "circ_inv m (\<lambda>q. 1) (qc st)" "j < i" "i < m"
  shows "circ_inv m (\<lambda>q. 1) (qc (cz_step (i, j) st))"
proof (cases "tZ (sT st) i j")
  case False
  then show ?thesis using assms(1) by (simp add: cz_step_def)
next
  case True
  have jm: "j < m" "i \<noteq> j" using assms by auto
  have 1: "circ_inv m ((\<lambda>q. 1)(j := Suc 1)) (qc st @ [H_gate j])"
    using circ_inv_H[OF assms(1) jm(1)] by simp
  have 2: "circ_inv m ((\<lambda>q. 1)(j := Suc 1, i := 0, j := 0)) ((qc st @ [H_gate j]) @ [CX_gate i j])"
    using circ_inv_CX[OF 1 assms(3) jm(1) jm(2)] by simp
  have 3: "circ_inv m (((\<lambda>q. 1)(j := Suc 1, i := 0, j := 0))(j := Suc 0))
             (((qc st @ [H_gate j]) @ [CX_gate i j]) @ [H_gate j])"
    using circ_inv_H[OF 2 jm(1)] by simp
  have 4: "((qc st @ [H_gate j]) @ [CX_gate i j]) @ [H_gate j] =
           qc st @ [H_gate j, CX_gate i j, H_gate j]" by simp
  have "circ_inv m (\<lambda>q. 1) (((qc st @ [H_gate j]) @ [CX_gate i j]) @ [H_gate j])"
    by (rule circ_inv_mono[OF 3]) simp
  then have "circ_inv m (\<lambda>q. 1) (qc st @ [H_gate j, CX_gate i j, H_gate j])"
    unfolding 4 .
  then show ?thesis using True by (simp add: cz_step_def)
qed

lemma final_step_circ:
  assumes "circ_inv m (\<lambda>q. if q < i then 2 else 1) (qc st)" "i < m"
  shows "circ_inv m (\<lambda>q. if q < Suc i then 2 else 1) (qc (final_step i st))"
proof -
  let ?B = "\<lambda>q. if q < i then 2 else (1 :: nat)"
  have 1: "circ_inv m ?B (qc (s_step i st))"
  proof (cases "tZ (sT st) i i")
    case False
    then show ?thesis using assms(1) by (simp add: s_step_def)
  next
    case True
    have "circ_inv m (?B(i := 0)) (qc st @ [S_gate i])"
      using circ_inv_S[OF assms] .
    then have "circ_inv m ?B (qc st @ [S_gate i])"
      by (rule circ_inv_mono) simp
    then show ?thesis using True by (simp add: s_step_def)
  qed
  have "circ_inv m (?B(i := Suc (?B i))) (qc (s_step i st) @ [H_gate i])"
    using circ_inv_H[OF 1 assms(2)] by simp
  then have "circ_inv m (\<lambda>q. if q < Suc i then 2 else 1) (qc (s_step i st) @ [H_gate i])"
    by (rule circ_inv_mono) (simp add: less_Suc_eq)
  then show ?thesis by (simp add: final_step_def)
qed

lemma fold_final_step_circ:
  assumes "circ_inv m (\<lambda>q. 1) (qc st)" "i \<le> m"
  shows "circ_inv m (\<lambda>q. if q < i then 2 else 1) (qc (fold final_step [0..<i] st))"
  using assms(2)
proof (induction i)
  case 0
  show ?case using assms(1) by simp
next
  case (Suc i)
  then have "circ_inv m (\<lambda>q. if q < i then 2 else 1) (qc (fold final_step [0..<i] st))"
    "i < m" by auto
  from final_step_circ[OF this] show ?case by simp
qed

lemma clifford_stages_circ:
  assumes c: "circ_inv m (\<lambda>q. 0) (qc st)" and k: "kx \<le> kz" "kz \<le> m"
  shows "circ_inv m (\<lambda>q. 2) (qc (clifford_stages m kx kz st))"
proof -
  let ?s3 = "fold h_step [kx..<kz] st"
  let ?s4 = "fold cnot_step (List.product [0..<kz] [kz..<m]) ?s3"
  let ?s5 = "fold cz_step (lower_pairs kz) ?s4"
  let ?s6 = "fold final_step [0..<kz] ?s5"
  have "circ_inv m (\<lambda>q. if q \<in> {} \<union> set [kx..<kz] then 1 else 0) (qc ?s3)"
    using c k by (intro stage3_circ) auto
  then have 3: "circ_inv m (\<lambda>q. 1) (qc ?s3)"
    by (rule circ_inv_mono) simp
  have 4: "circ_inv m (\<lambda>q. 1) (qc ?s4)"
  proof (rule fold_inv[where P = "\<lambda>s :: state. circ_inv m (\<lambda>q. 1) (qc s)"
        and f = cnot_step and xs = "List.product [0..<kz] [kz..<m]" and s = "?s3"])
    fix x and s :: state
    assume x: "x \<in> set (List.product [0..<kz] [kz..<m])" and s: "circ_inv m (\<lambda>q. 1) (qc s)"
    obtain i j where ij: "x = (i, j)" by (cases x)
    with x have "i < kz" "kz \<le> j" "j < m" by auto
    from cnot_step_circ[OF s this] show "circ_inv m (\<lambda>q. 1) (qc (cnot_step x s))"
      unfolding ij .
  qed (rule 3)
  have 5: "circ_inv m (\<lambda>q. 1) (qc ?s5)"
  proof (rule fold_inv[where P = "\<lambda>s :: state. circ_inv m (\<lambda>q. 1) (qc s)"
        and f = cz_step and xs = "lower_pairs kz" and s = "?s4"])
    fix x and s :: state
    assume x: "x \<in> set (lower_pairs kz)" and s: "circ_inv m (\<lambda>q. 1) (qc s)"
    obtain i j where ij: "x = (i, j)" by (cases x)
    with x have "j < i" "i < m" using k by (auto simp: set_lower_pairs)
    from cz_step_circ[OF s this] show "circ_inv m (\<lambda>q. 1) (qc (cz_step x s))"
      unfolding ij .
  qed (rule 4)
  have "circ_inv m (\<lambda>q. if q < kz then 2 else 1) (qc ?s6)"
    using fold_final_step_circ[OF 5 k(2)] .
  then have "circ_inv m (\<lambda>q. 2) (qc ?s6)"
    by (rule circ_inv_mono) simp
  then show ?thesis by (simp add: clifford_stages_def)
qed



section \<open>The cleanup\<close>

lemma h_to_remove_scan: "h_to_remove c = snd (scan c)"
  by (simp add: h_to_remove_def scan_def)

lemma scan_Nil [simp]: "scan [] = (\<lambda>q. None, [])"
  by (simp add: scan_def)

lemma scan_snoc: "scan (c @ [g]) = scan_step (length c, g) (scan c)"
  by (simp add: scan_def)

lemma fold_upd_const:
  "fold (\<lambda>q f. f(q := v)) qs f x = (if x \<in> set qs then v else f x)"
  by (induction qs arbitrary: f) auto

lemma hcount_snoc_other:
  "\<not> is_h g \<Longrightarrow> hcount (c @ [g]) q = (if q \<in> set (qubits g) then 0 else hcount c q)"
  by (cases g) (simp_all add: hcount_snoc fold_upd_const)

lemma scan_step_other:
  "\<not> is_h g \<Longrightarrow>
   scan_step (i, g) (lh, rem) = (\<lambda>q. if q \<in> set (qubits g) then None else lh q, rem)"
  by (cases g) (auto simp: fold_upd_const fun_eq_iff)

lemma scan_inv_other:
  assumes inv: "scan_inv c (lh, rem)" and g: "\<not> is_h g"
  shows "scan_inv (c @ [g]) (scan_step (length c, g) (lh, rem))"
proof -
  let ?lh = "\<lambda>q. if q \<in> set (qubits g) then None else lh q"
  from inv have d: "distinct rem" and r: "\<forall>a \<in> set rem. a < length c"
    and z: "\<And>q. hcount c q = 0 \<Longrightarrow> lh q = None"
    and o: "\<And>q. hcount c q = 1 \<Longrightarrow>
           (\<exists>a. lh q = Some a \<and> a < length c \<and> c ! a = H_gate q \<and> a \<notin> set rem \<and>
                (\<forall>b. a < b \<and> b < length c \<longrightarrow> q \<notin> set (qubits (c ! b))))"
    by (auto simp: scan_inv_def)
  have 1: "\<forall>a \<in> set rem. a < length (c @ [g])" using r by auto
  have 2: "\<forall>q. hcount (c @ [g]) q = 0 \<longrightarrow> ?lh q = None"
    using z by (simp add: hcount_snoc_other[OF g])
  have 3: "\<exists>a. ?lh q = Some a \<and> a < length (c @ [g]) \<and> (c @ [g]) ! a = H_gate q \<and>
              a \<notin> set rem \<and>
              (\<forall>b. a < b \<and> b < length (c @ [g]) \<longrightarrow> q \<notin> set (qubits ((c @ [g]) ! b)))"
    if h: "hcount (c @ [g]) q = 1" for q
  proof -
    from h have q: "q \<notin> set (qubits g)" "hcount c q = 1"
      by (auto simp: hcount_snoc_other[OF g] split: if_splits)
    from o[OF q(2)] obtain a where a: "lh q = Some a" "a < length c" "c ! a = H_gate q"
      "a \<notin> set rem" "\<forall>b. a < b \<and> b < length c \<longrightarrow> q \<notin> set (qubits (c ! b))" by blast
    have "\<forall>b. a < b \<and> b < length (c @ [g]) \<longrightarrow> q \<notin> set (qubits ((c @ [g]) ! b))"
      using a(5) q(1) by (auto simp: nth_append less_Suc_eq)
    then show ?thesis using a q(1) by (auto simp: nth_append)
  qed
  show ?thesis
    unfolding scan_step_other[OF g] scan_inv_def using d 1 2 3 by simp
qed

lemma scan_inv_H0:
  assumes inv: "scan_inv c (lh, rem)" and h: "hcount c q = 0"
  shows "scan_inv (c @ [H_gate q]) (scan_step (length c, H_gate q) (lh, rem))"
proof -
  from inv have d: "distinct rem" and r: "\<forall>a \<in> set rem. a < length c"
    and z: "\<And>q. hcount c q = 0 \<Longrightarrow> lh q = None"
    and o: "\<And>q. hcount c q = 1 \<Longrightarrow>
           (\<exists>a. lh q = Some a \<and> a < length c \<and> c ! a = H_gate q \<and> a \<notin> set rem \<and>
                (\<forall>b. a < b \<and> b < length c \<longrightarrow> q \<notin> set (qubits (c ! b))))"
    by (auto simp: scan_inv_def)
  let ?c = "c @ [H_gate q]" and ?lh = "lh(q := Some (length c))"
  have s: "scan_step (length c, H_gate q) (lh, rem) = (?lh, rem)"
    using z[OF h] by simp
  have 1: "\<forall>a \<in> set rem. a < length ?c" using r by auto
  have 2: "\<forall>p. hcount ?c p = 0 \<longrightarrow> ?lh p = None" using z by auto
  have 3: "\<exists>a. ?lh p = Some a \<and> a < length ?c \<and> ?c ! a = H_gate p \<and> a \<notin> set rem \<and>
              (\<forall>b. a < b \<and> b < length ?c \<longrightarrow> p \<notin> set (qubits (?c ! b)))"
    if hp: "hcount ?c p = 1" for p
  proof (cases "p = q")
    case True
    have "length c \<notin> set rem" using r by auto
    then show ?thesis using True by auto
  next
    case False
    then have "hcount c p = 1" using hp by simp
    from o[OF this] obtain a where a: "lh p = Some a" "a < length c" "c ! a = H_gate p"
      "a \<notin> set rem" "\<forall>b. a < b \<and> b < length c \<longrightarrow> p \<notin> set (qubits (c ! b))" by blast
    have "\<forall>b. a < b \<and> b < length ?c \<longrightarrow> p \<notin> set (qubits (?c ! b))"
      using a(5) False by (auto simp: nth_append less_Suc_eq)
    then show ?thesis using a False by (auto simp: nth_append)
  qed
  show ?thesis unfolding s scan_inv_def using d 1 2 3 by simp
qed

lemma scan_inv_H1:
  assumes inv: "scan_inv c (lh, rem)" and h: "hcount c q = 1"
  shows "scan_inv (c @ [H_gate q]) (scan_step (length c, H_gate q) (lh, rem))"
proof -
  from inv have d: "distinct rem" and r: "\<forall>a \<in> set rem. a < length c"
    and z: "\<And>q. hcount c q = 0 \<Longrightarrow> lh q = None"
    and o: "\<And>q. hcount c q = 1 \<Longrightarrow>
           (\<exists>a. lh q = Some a \<and> a < length c \<and> c ! a = H_gate q \<and> a \<notin> set rem \<and>
                (\<forall>b. a < b \<and> b < length c \<longrightarrow> q \<notin> set (qubits (c ! b))))"
    by (auto simp: scan_inv_def)
  from o[OF h] obtain a0 where a0: "lh q = Some a0" "a0 < length c" "c ! a0 = H_gate q"
    "a0 \<notin> set rem" by blast
  let ?c = "c @ [H_gate q]" and ?rem = "rem @ [a0, length c]"
  have s: "scan_step (length c, H_gate q) (lh, rem) = (lh, ?rem)"
    using a0(1) by simp
  have ln: "length c \<notin> set rem" using r by auto
  have 0: "distinct ?rem" using d a0 ln by auto
  have 1: "\<forall>a \<in> set ?rem. a < length ?c" using r a0 by auto
  have 2: "\<forall>p. hcount ?c p = 0 \<longrightarrow> lh p = None" using z by auto
  have 3: "\<exists>a. lh p = Some a \<and> a < length ?c \<and> ?c ! a = H_gate p \<and> a \<notin> set ?rem \<and>
              (\<forall>b. a < b \<and> b < length ?c \<longrightarrow> p \<notin> set (qubits (?c ! b)))"
    if hp: "hcount ?c p = 1" for p
  proof -
    have pq: "p \<noteq> q" using hp h by auto
    then have "hcount c p = 1" using hp by simp
    from o[OF this] obtain a where a: "lh p = Some a" "a < length c" "c ! a = H_gate p"
      "a \<notin> set rem" "\<forall>b. a < b \<and> b < length c \<longrightarrow> p \<notin> set (qubits (c ! b))" by blast
    have "a \<noteq> a0" using a(3) a0(3) pq by auto
    then have n: "a \<notin> set ?rem" using a(2,4) by auto
    have "\<forall>b. a < b \<and> b < length ?c \<longrightarrow> p \<notin> set (qubits (?c ! b))"
      using a(5) pq by (auto simp: nth_append less_Suc_eq)
    then show ?thesis using a(1,2,3) n by (auto simp: nth_append)
  qed
  show ?thesis unfolding s scan_inv_def using 0 1 2 3 by simp
qed

lemma scan_inv_scan: "h_runs_ok c \<Longrightarrow> scan_inv c (scan c)"
proof (induction c rule: rev_induct)
  case Nil
  show ?case by (simp add: scan_inv_def)
next
  case (snoc g c)
  from snoc.prems have ok: "h_runs_ok c" and le: "\<And>q. hcount (c @ [g]) q \<le> 2"
    by (auto simp: h_runs_ok_snoc)
  obtain lh rem where s: "scan c = (lh, rem)" by (cases "scan c")
  have inv: "scan_inv c (lh, rem)" using snoc.IH[OF ok] s by simp
  show ?case
  proof (cases "is_h g")
    case True
    then obtain q where g: "g = H_gate q" by (cases g) auto
    have "Suc (hcount c q) \<le> 2" using le[of q] g by simp
    then have "hcount c q = 0 \<or> hcount c q = 1" by auto
    then show ?thesis
      using scan_inv_H0[OF inv] scan_inv_H1[OF inv] unfolding scan_snoc s g by blast
  next
    case False
    from scan_inv_other[OF inv False] show ?thesis unfolding scan_snoc s .
  qed
qed

lemma h_to_remove_ok:
  assumes "h_runs_ok c"
  shows "distinct (h_to_remove c) \<and> (\<forall>a \<in> set (h_to_remove c). a < length c)"
  using scan_inv_scan[OF assms] unfolding h_to_remove_scan
  by (cases "scan c") (simp add: scan_inv_def)

subsection \<open>Popping indices from the highest to the lowest\<close>

lemma nths_cong_set:
  assumes "\<And>i. i < length xs \<Longrightarrow> (i \<in> A) = (i \<in> B)"
  shows "nths xs A = nths xs B"
proof -
  have "filter (\<lambda>p. snd p \<in> A) (zip xs [0..<length xs]) =
        filter (\<lambda>p. snd p \<in> B) (zip xs [0..<length xs])"
  proof (rule filter_cong[OF refl])
    fix p assume "p \<in> set (zip xs [0..<length xs])"
    then have "snd p < length xs" by (auto simp: in_set_zip)
    then show "(snd p \<in> A) = (snd p \<in> B)" by (rule assms)
  qed
  then show ?thesis by (simp add: nths_def)
qed

lemma nths_UNIV [simp]: "nths xs UNIV = xs"
  by (rule nths_all) simp

lemma nths_remove:
  assumes d: "d < length c" and A: "\<And>a. a \<in> A \<Longrightarrow> a < d"
  shows "nths (take d c @ drop (Suc d) c) (- A) = nths c (- insert d A)"
proof -
  have l: "length (take d c) = d" using d by simp
  have e: "{j. j + d \<in> - A} = UNIV" using A by fastforce
  have L: "nths (take d c @ drop (Suc d) c) (- A) = nths (take d c) (- A) @ drop (Suc d) c"
    unfolding nths_append l e by simp
  have c: "c = take d c @ c ! d # drop (Suc d) c" using d by (simp add: id_take_nth_drop)
  have e1: "0 \<notin> {j. j + d \<in> - insert d A}" by simp
  have e2: "{j. Suc j \<in> {j. j + d \<in> - insert d A}} = UNIV" using A by fastforce
  have "nths c (- insert d A) = nths (take d c @ c ! d # drop (Suc d) c) (- insert d A)"
    using c by simp
  also have "\<dots> = nths (take d c) (- insert d A) @ drop (Suc d) c"
    unfolding nths_append l nths_Cons e2 using e1 by simp
  also have "nths (take d c) (- insert d A) = nths (take d c) (- A)"
    by (rule nths_cong_set) (use l in auto)
  finally show ?thesis using L by simp
qed

lemma pops_nths:
  "sorted as \<Longrightarrow> distinct as \<Longrightarrow> \<forall>a \<in> set as. a < length c \<Longrightarrow>
   foldE pop (rev as) c = Inr (nths c (- set as))"
proof (induction as arbitrary: c rule: rev_induct)
  case Nil
  show ?case by simp
next
  case (snoc d as)
  have s: "sorted as" "distinct as" "d \<notin> set as" "\<forall>a \<in> set as. a \<le> d" "d < length c"
    using snoc.prems by (auto simp: sorted_append)
  then have lt: "\<And>a. a \<in> set as \<Longrightarrow> a < d" by (metis le_neq_implies_less)
  let ?c = "take d c @ drop (Suc d) c"
  have p: "pop d c = Inr ?c" using s(5) by (simp add: pop_def)
  have "\<forall>a \<in> set as. a < length ?c" using lt s(5) by fastforce
  from snoc.IH[OF s(1,2) this] have "foldE pop (rev as) ?c = Inr (nths ?c (- set as))" .
  also have "nths ?c (- set as) = nths c (- insert d (set as))"
    by (rule nths_remove[OF s(5) lt])
  finally show ?case using p by simp
qed

lemma cleanup_nths:
  assumes "h_runs_ok c"
  shows "cleanup c = Inr (nths c (- set (h_to_remove c)))"
proof -
  have "foldE pop (rev (sort (h_to_remove c))) c = Inr (nths c (- set (sort (h_to_remove c))))"
    using h_to_remove_ok[OF assms] by (intro pops_nths) auto
  then show ?thesis by (simp add: cleanup_def)
qed

lemma cleanup_gates:
  assumes "h_runs_ok c"
  shows "\<exists>c'. cleanup c = Inr c' \<and> set c' \<subseteq> set c"
  using cleanup_nths[OF assms] by (simp add: set_nths_subset)



section \<open>Correctness of the simultaneous diagonalization\<close>

lemma sim_cliff_diag_unfold:
  assumes ne: "paulis \<noteq> []" and pos: "0 < num_qubits (hd paulis)"
    and x: "foldE (elim_step tX (length paulis) (num_qubits (hd paulis)))
              [0..<matrix_rank (map (\<lambda>p. px p @ pz p) paulis)]
              (\<lparr>sT = init_tableau paulis, sT2 = init_tableau paulis, qc = []\<rparr>, 0) = Inr (st1, kx)"
    and z: "foldE (elim_step tZ (length paulis) (num_qubits (hd paulis)))
              [kx..<matrix_rank (map (\<lambda>p. px p @ pz p) paulis)] (st1, kx) = Inr (st2, kz)"
  shows "sim_cliff_diag matrix_rank paulis =
         (case cleanup (qc (clifford_stages (num_qubits (hd paulis)) kx kz st2)) of
            Inl e \<Rightarrow> Inl e
          | Inr c \<Rightarrow>
              if any_true (tX (sT (clifford_stages (num_qubits (hd paulis)) kx kz st2)))
                   (length paulis) (num_qubits (hd paulis)) then Inl FailedClifford
              else if any_true (tX (sT2 (clifford_stages (num_qubits (hd paulis)) kx kz st2)))
                   (length paulis) (num_qubits (hd paulis)) then Inl TheoryOnly
              else Inr (c, map (new_pauli (sT2 (clifford_stages (num_qubits (hd paulis)) kx kz st2))
                                 (num_qubits (hd paulis))) [0..<length paulis]))"
proof -
  obtain p0 rest where p: "paulis = p0 # rest" using ne by (cases paulis) auto
  show ?thesis
    using x z pos unfolding p sim_cliff_diag_def by (simp add: Let_def split: sum.splits)
qed

lemma circ_inv_init: "circ_inv m (\<lambda>q. 0) []"
  by (simp add: circ_inv_def)

lemma new_pauli_fields:
  "length (px (new_pauli T m i)) = m" "length (pz (new_pauli T m i)) = m"
  "num_qubits (new_pauli T m i) = m"
  by (simp_all add: new_pauli_def num_qubits_def)

lemma new_pauli_px_zero:
  assumes "\<not> any_true (tX T) n m" "i < n"
  shows "px (new_pauli T m i) = replicate m False"
proof -
  have "\<And>b. b < m \<Longrightarrow> \<not> tX T i b"
    using assms by (auto simp: any_true_def list_ex_iff)
  then have "map (tX T i) [0..<m] = map (\<lambda>b. False) [0..<m]"
    by (intro map_cong) auto
  then show ?thesis by (simp add: new_pauli_def map_replicate_const)
qed

text \<open>When \<open>matrix_rank\<close> returns at least the number of pivots that the two elimination
  loops can find, the loops run to their end and the diagonalization succeeds.\<close>

lemma sim_cliff_diag_rank_ok:
  assumes ne: "paulis \<noteq> []" and pos: "0 < num_qubits (hd paulis)"
    and len: "\<forall>p \<in> set paulis. length (px p) = num_qubits (hd paulis) \<and>
                               length (pz p) = num_qubits (hd paulis)"
    and comm: "\<forall>p \<in> set paulis. \<forall>q \<in> set paulis. commutes p q"
    and rank: "elim_pivots paulis \<le> matrix_rank (map (\<lambda>p. px p @ pz p) paulis)"
  shows "\<exists>c ps. sim_cliff_diag matrix_rank paulis = Inr (c, ps) \<and>
           length ps = length paulis \<and>
           (\<forall>p \<in> set ps. px p = replicate (num_qubits (hd paulis)) False \<and>
                          length (pz p) = num_qubits (hd paulis)) \<and>
           (\<forall>g \<in> set c. diag_gate (num_qubits (hd paulis)) g)"
proof -
  let ?n = "length paulis" and ?m = "num_qubits (hd paulis)"
  let ?T = "init_tableau paulis"
  let ?r = "matrix_rank (map (\<lambda>p. px p @ pz p) paulis)"
  have c0: "comm_rows ?n ?m ?T" using comm_rows_init[OF len comm] .
  have r': "(case foldE (elim_step tX ?n ?m) [0..<?n] (\<lparr>sT = ?T, sT2 = ?T, qc = []\<rparr>, 0) of
               Inl e \<Rightarrow> 0
             | Inr (st1, kx) \<Rightarrow>
                 (case foldE (elim_step tZ ?n ?m) [kx..<?n] (st1, kx) of
                    Inl e \<Rightarrow> 0 | Inr (st2, kz) \<Rightarrow> kz)) \<le> ?r"
    using rank unfolding elim_pivots_def Let_def .
  from loops_result[OF c0 r'] obtain st1 kx st2 kz where
    x: "foldE (elim_step tX ?n ?m) [0..<?r] (\<lparr>sT = ?T, sT2 = ?T, qc = []\<rparr>, 0) = Inr (st1, kx)"
    and z: "foldE (elim_step tZ ?n ?m) [kx..<?r] (st1, kx) = Inr (st2, kz)"
    and p: "post_loops ?n ?m kx kz (sT st2)" and sp: "in_span ?n (sT2 st2) (sT st2)"
    by blast
  let ?st3 = "clifford_stages ?m kx kz st2"
  have k: "kx \<le> kz" "kz \<le> ?m" using p by (auto simp: post_loops_def)
  have "circ_inv ?m (\<lambda>q. 0) (qc (fst (st1, kx)))"
    using loops_circ[OF x] circ_inv_init by simp
  then have "circ_inv ?m (\<lambda>q. 0) (qc (fst (st2, kz)))"
    by (rule loops_circ[OF z])
  then have ci: "circ_inv ?m (\<lambda>q. 2) (qc ?st3)"
    using clifford_stages_circ[OF _ k] by simp
  then have ok: "h_runs_ok (qc ?st3)" and dg: "\<forall>g \<in> set (qc ?st3). diag_gate ?m g"
    by (auto simp: circ_inv_def)
  from cleanup_gates[OF ok] obtain c where c: "cleanup (qc ?st3) = Inr c" "set c \<subseteq> set (qc ?st3)"
    by blast
  from stages_zero[OF p sp] have zx: "\<not> any_true (tX (sT ?st3)) ?n ?m"
    and zx2: "\<not> any_true (tX (sT2 ?st3)) ?n ?m" by auto
  have res: "sim_cliff_diag matrix_rank paulis =
             Inr (c, map (new_pauli (sT2 ?st3) ?m) [0..<?n])"
    unfolding sim_cliff_diag_unfold[where matrix_rank = matrix_rank, OF ne pos x z]
    using c(1) zx zx2 by simp
  have ps: "\<forall>p \<in> set (map (new_pauli (sT2 ?st3) ?m) [0..<?n]).
              px p = replicate ?m False \<and> length (pz p) = ?m"
    using new_pauli_px_zero[OF zx2] by (auto simp: new_pauli_fields)
  have g: "\<forall>g \<in> set c. diag_gate ?m g" using dg c(2) by blast
  show ?thesis using res ps g by simp
qed

section \<open>The exception of sweep_rows\<close>

lemma foldE_pop_error: "foldE pop xs c = Inl e \<Longrightarrow> e = IndexError"
proof (induction xs arbitrary: c)
  case Nil
  then show ?case by simp
next
  case (Cons x xs)
  show ?case
  proof (cases "pop x c")
    case (Inl e')
    then show ?thesis using Cons.prems by (simp add: pop_def split: if_splits)
  next
    case (Inr c')
    then show ?thesis using Cons.prems Cons.IH[of c'] by simp
  qed
qed

lemma loops_no_error:
  assumes comm: "comm_rows n m T"
  shows "\<exists>st1 kx st2 kz.
           foldE (elim_step tX n m) [0..<r] (\<lparr>sT = T, sT2 = T, qc = []\<rparr>, 0) = Inr (st1, kx) \<and>
           foldE (elim_step tZ n m) [kx..<r] (st1, kx) = Inr (st2, kz)"
proof -
  let ?s0 = "(\<lparr>sT = T, sT2 = T, qc = []\<rparr>, 0 :: nat)"
  have i0: "loop_inv tX n m 0 (\<lambda>T. True) 0 ?s0"
    using comm by (simp add: loop_inv_def in_span_refl ublock_def)
  have "\<exists>s'. foldE (elim_step tX n m) [0..<r] ?s0 = Inr s' \<and> loop_inv tX n m 0 (\<lambda>T. True) r s'"
    by (rule loop_run[OF _ _ _ _ i0]) simp_all
  then obtain st1 kx where 1: "foldE (elim_step tX n m) [0..<r] ?s0 = Inr (st1, kx)"
    and l1: "loop_inv tX n m 0 (\<lambda>T. True) r (st1, kx)" by auto
  from l1 have c1: "comm_rows n m (sT st1)" and sp1: "in_span n (sT2 st1) (sT st1)"
    and k1: "kx \<le> r" "kx \<le> n" "kx \<le> m"
    by (auto simp: loop_inv_def)
  have i2: "loop_inv tZ n m kx (\<lambda>T. True) kx (st1, kx)"
    using c1 sp1 k1 by (auto simp: loop_inv_def ublock_def)
  have "\<exists>s'. foldE (elim_step tZ n m) [kx..<r] (st1, kx) = Inr s' \<and>
             loop_inv tZ n m kx (\<lambda>T. True) r s'"
    by (rule loop_run[OF _ _ k1(1) order_refl i2]) simp_all
  then obtain st2 kz where "foldE (elim_step tZ n m) [kx..<r] (st1, kx) = Inr (st2, kz)"
    by auto
  with 1 show ?thesis by blast
qed

text \<open>
  Claim C10. For every pair of rows \<open>i\<close>, \<open>j\<close> of the symplectic matrix of pairwise
  commuting Pauli operators, the quantity \<open>t\<close> of \<open>sweep_rows\<close> satisfies
  \<open>t % 4 \<in> {0, 2}\<close>; the row operations of the two loops keep the rows commuting, so
  \<open>sim_cliff_diag\<close> never raises "Unexpected result in sweep_rows" on such an input,
  whatever \<open>matrix_rank\<close> returns.
\<close>

theorem sweep_rows_exception_unreachable:
  assumes len: "\<forall>p \<in> set paulis. length (px p) = num_qubits (hd paulis) \<and>
                               length (pz p) = num_qubits (hd paulis)"
    and comm: "\<forall>p \<in> set paulis. \<forall>q \<in> set paulis. commutes p q"
  shows "(\<forall>i < length paulis. \<forall>j < length paulis.
            sweep_t (num_qubits (hd paulis)) (init_tableau paulis) i j mod 4 \<in> {0, 2}) \<and>
         sim_cliff_diag matrix_rank paulis \<noteq> Inl SweepRowsError"
proof -
  let ?n = "length paulis" and ?m = "num_qubits (hd paulis)"
  let ?T = "init_tableau paulis"
  have c0: "comm_rows ?n ?m ?T" using comm_rows_init[OF len comm] .
  have 1: "\<forall>i < ?n. \<forall>j < ?n. sweep_t ?m ?T i j mod 4 \<in> {0, 2}"
    using c0 sweep_t_mod4[of ?m ?T] by (auto simp: comm_rows_def)
  have 2: "sim_cliff_diag matrix_rank paulis \<noteq> Inl SweepRowsError"
  proof (cases "paulis = []")
    case True
    then show ?thesis by (simp add: sim_cliff_diag_def)
  next
    case False
    show ?thesis
    proof (cases "num_qubits (hd paulis) = 0")
      case True
      obtain p0 rest where p: "paulis = p0 # rest" using False by (cases paulis) auto
      show ?thesis using True unfolding p sim_cliff_diag_def by (simp add: Let_def)
    next
      case False
      then have pos: "0 < num_qubits (hd paulis)" by simp
    from loops_no_error[OF c0] obtain st1 kx st2 kz where
      x: "foldE (elim_step tX ?n ?m) [0..<matrix_rank (map (\<lambda>p. px p @ pz p) paulis)]
            (\<lparr>sT = ?T, sT2 = ?T, qc = []\<rparr>, 0) = Inr (st1, kx)"
      and z: "foldE (elim_step tZ ?n ?m) [kx..<matrix_rank (map (\<lambda>p. px p @ pz p) paulis)]
            (st1, kx) = Inr (st2, kz)"
      by blast
    have "cleanup c \<noteq> Inl SweepRowsError" for c
      using foldE_pop_error[of "rev (sort (h_to_remove c))" c SweepRowsError]
      by (auto simp: cleanup_def)
    then show ?thesis
      unfolding sim_cliff_diag_unfold[where matrix_rank = matrix_rank, OF \<open>paulis \<noteq> []\<close> pos x z]
      by (auto split: sum.splits)
    qed
  qed
  show ?thesis using 1 2 by simp
qed

theorem sweep_rows_exception_unreachable_witness:
  "commutes (mk_pauli ''XX'') (mk_pauli ''ZZ'') \<and>
   sweep_t 2 (init_tableau [mk_pauli ''XX'', mk_pauli ''ZZ'']) 0 1 = - 2 \<and>
   sweep_t 2 (init_tableau [mk_pauli ''XX'', mk_pauli ''ZZ'']) 0 1 mod 4 \<in> {0, 2} \<and>
   sim_cliff_diag rank_rows [mk_pauli ''XX'', mk_pauli ''ZZ''] \<noteq> Inl SweepRowsError"
proof -
  let ?ps = "[mk_pauli ''XX'', mk_pauli ''ZZ'']"
  have len: "\<forall>p \<in> set ?ps. length (px p) = num_qubits (hd ?ps) \<and>
                            length (pz p) = num_qubits (hd ?ps)"
    by (simp add: mk_pauli_def num_qubits_def)
  have comm: "\<forall>p \<in> set ?ps. \<forall>q \<in> set ?ps. commutes p q"
    by (simp add: mk_pauli_def commutes_def count_and_def)
  have m: "num_qubits (hd ?ps) = 2" by (simp add: mk_pauli_def num_qubits_def)
  have t: "sweep_t 2 (init_tableau ?ps) 0 1 = - 2" by code_simp
  from sweep_rows_exception_unreachable[where matrix_rank = rank_rows, OF len comm]
  show ?thesis unfolding m using comm t by simp
qed



section \<open>The operator of a circuit\<close>

lemma run_Nil [simp]: "run [] psi = psi"
  by (simp add: run_def)

lemma run_append: "run (c1 @ c2) psi = run c2 (run c1 psi)"
  by (simp add: run_def)

lemma run_single [simp]: "run [g] psi = apply_gate g psi"
  by (simp add: run_def)

lemma run_Cons: "run (g # c) psi = run c (apply_gate g psi)"
  by (simp add: run_def)

lemma sqrt2_sq: "complex_of_real (sqrt 2) * complex_of_real (sqrt 2) = 2"
proof -
  have "complex_of_real (sqrt 2) * complex_of_real (sqrt 2) = complex_of_real (sqrt 2 * sqrt 2)"
    by (simp only: of_real_mult)
  also have "sqrt 2 * sqrt 2 = (2 :: real)" by (simp add: real_sqrt_mult_self)
  finally show ?thesis by simp
qed

lemma H_H: "apply_gate (H_gate q) (apply_gate (H_gate q) psi) = psi"
proof
  fix b
  let ?s = "complex_of_real (sqrt 2)"
  let ?A = "psi (b(q := False))" and ?B = "psi (b(q := True))"
  have s: "?s \<noteq> 0" by simp
  have e: "((?A + ?B) / ?s + c * ((?A - ?B) / ?s)) / ?s = (?A + ?B + c * (?A - ?B)) / 2" for c
    using sqrt2_sq by (simp add: field_simps)
  show "apply_gate (H_gate q) (apply_gate (H_gate q) psi) b = psi b"
  proof (cases "b q")
    case True
    then have b: "b(q := True) = b" by (simp add: fun_upd_idem)
    have "apply_gate (H_gate q) (apply_gate (H_gate q) psi) b
          = ((?A + ?B) / ?s + (- 1) * ((?A - ?B) / ?s)) / ?s"
      using True by simp
    also have "\<dots> = ?B" unfolding e by simp
    finally show ?thesis using b by simp
  next
    case False
    then have b: "b(q := False) = b" by (simp add: fun_upd_idem)
    have "apply_gate (H_gate q) (apply_gate (H_gate q) psi) b
          = ((?A + ?B) / ?s + 1 * ((?A - ?B) / ?s)) / ?s"
      using False by simp
    also have "\<dots> = ?A" unfolding e by simp
    finally show ?thesis using b by simp
  qed
qed

lemma H_commute:
  assumes "q \<notin> set (qubits g)"
  shows "apply_gate (H_gate q) (apply_gate g psi) = apply_gate g (apply_gate (H_gate q) psi)"
proof (cases g)
  case (H_gate a)
  then have "a \<noteq> q" using assms by auto
  then show ?thesis unfolding H_gate
    by (auto simp: fun_eq_iff fun_upd_twist[of a q] field_simps)
next
  case (CX_gate c t)
  then have "c \<noteq> q" "t \<noteq> q" using assms by auto
  then show ?thesis unfolding CX_gate
    by (auto simp: fun_eq_iff fun_upd_twist[of t q])
next
  case (X_gate a)
  then have "a \<noteq> q" using assms by auto
  then show ?thesis unfolding X_gate
    by (auto simp: fun_eq_iff fun_upd_twist[of a q])
qed (use assms in \<open>auto simp: fun_eq_iff field_simps\<close>)

lemma H_commute_run:
  "\<forall>g \<in> set cs. q \<notin> set (qubits g) \<Longrightarrow>
   run cs (apply_gate (H_gate q) psi) = apply_gate (H_gate q) (run cs psi)"
proof (induction cs arbitrary: psi)
  case Nil
  show ?case by simp
next
  case (Cons g cs)
  have g: "q \<notin> set (qubits g)" and cs: "\<forall>g \<in> set cs. q \<notin> set (qubits g)"
    using Cons.prems by auto
  have "run (g # cs) (apply_gate (H_gate q) psi) = run cs (apply_gate g (apply_gate (H_gate q) psi))"
    by (rule run_Cons)
  also have "\<dots> = run cs (apply_gate (H_gate q) (apply_gate g psi))"
    unfolding H_commute[OF g] ..
  also have "\<dots> = apply_gate (H_gate q) (run cs (apply_gate g psi))"
    by (rule Cons.IH[OF cs])
  finally show ?case by (simp add: run_Cons del: apply_gate.simps)
qed

lemma H_pair_cancel:
  assumes "\<forall>g \<in> set post. q \<notin> set (qubits g)"
  shows "apply_gate (H_gate q) (run (pre @ [H_gate q] @ post) psi) = run (pre @ post) psi"
proof -
  have "run (pre @ [H_gate q] @ post) psi = run post (apply_gate (H_gate q) (run pre psi))"
    by (simp add: run_append run_Cons del: apply_gate.simps)
  also have "\<dots> = apply_gate (H_gate q) (run post (run pre psi))"
    by (rule H_commute_run[OF assms])
  finally show ?thesis by (simp add: H_H run_append del: apply_gate.simps)
qed

section \<open>The cleanup preserves the operator\<close>

lemma nths_split:
  assumes "a < length c"
  shows "nths c A = nths (take a c) A @ (if a \<in> A then [c ! a] else []) @
                    nths (drop (Suc a) c) {j. j + Suc a \<in> A}"
proof -
  have l: "length (take a c) = a" using assms by simp
  have c: "c = take a c @ c ! a # drop (Suc a) c" using assms by (simp add: id_take_nth_drop)
  have e: "{j. Suc j \<in> {j. j + a \<in> A}} = {j. j + Suc a \<in> A}" by simp
  have "nths c A = nths (take a c @ c ! a # drop (Suc a) c) A" using c by simp
  also have "\<dots> = nths (take a c) A @ (if a \<in> A then [c ! a] else []) @
                    nths (drop (Suc a) c) {j. j + Suc a \<in> A}"
    unfolding nths_append l nths_Cons e by simp
  finally show ?thesis .
qed

lemma nths_snoc:
  "nths (c @ [g]) A = nths c A @ (if length c \<in> A then [g] else [])"
  by (simp add: nths_append nths_Cons)

lemma scan_sem_keep:
  assumes inv: "scan_inv c (lh, rem)" and s: "scan_step (length c, g) (lh, rem) = (lh', rem)"
    and IH: "run (nths c (- set rem)) psi = run c psi"
  shows "run (nths (c @ [g]) (- set rem)) psi = run (c @ [g]) psi"
proof -
  have "length c \<notin> set rem" using inv by (auto simp: scan_inv_def)
  then have "nths (c @ [g]) (- set rem) = nths c (- set rem) @ [g]"
    by (simp add: nths_snoc)
  then show ?thesis using IH by (simp add: run_append del: apply_gate.simps)
qed

lemma scan_sem_H1:
  assumes inv: "scan_inv c (lh, rem)" and h: "hcount c q = 1"
    and IH: "run (nths c (- set rem)) psi = run c psi"
  shows "run (nths (c @ [H_gate q]) (- set (snd (scan_step (length c, H_gate q) (lh, rem))))) psi
         = run (c @ [H_gate q]) psi"
proof -
  from inv h obtain a where a: "lh q = Some a" "a < length c" "c ! a = H_gate q"
    "a \<notin> set rem" "\<forall>b. a < b \<and> b < length c \<longrightarrow> q \<notin> set (qubits (c ! b))"
    unfolding scan_inv_def by fastforce
  have r: "\<forall>x \<in> set rem. x < length c" using inv by (auto simp: scan_inv_def)
  let ?R = "set rem" and ?n = "length c"
  let ?pre = "nths (take a c) (- ?R)"
  let ?post = "nths (drop (Suc a) c) {j. j + Suc a \<in> - ?R}"
  have s: "snd (scan_step (?n, H_gate q) (lh, rem)) = rem @ [a, ?n]"
    using a(1) by simp
  have R': "set (rem @ [a, ?n]) = insert ?n (insert a ?R)" by auto
  have 1: "nths (c @ [H_gate q]) (- insert ?n (insert a ?R)) = nths c (- insert ?n (insert a ?R))"
    by (simp add: nths_snoc)
  have 2: "nths c (- insert ?n (insert a ?R)) = nths c (- insert a ?R)"
    by (rule nths_cong_set) auto
  have 3: "nths c (- insert a ?R) =
           nths (take a c) (- insert a ?R) @ nths (drop (Suc a) c) {j. j + Suc a \<in> - insert a ?R}"
    using nths_split[OF a(2), of "- insert a ?R"] by simp
  have 4: "nths (take a c) (- insert a ?R) = ?pre"
    by (rule nths_cong_set) (use a(2) in auto)
  have 5: "{j. j + Suc a \<in> - insert a ?R} = {j. j + Suc a \<in> - ?R}" by auto
  have rm: "nths (c @ [H_gate q]) (- set (rem @ [a, ?n])) = ?pre @ ?post"
    unfolding R' 1 2 3 4 5 ..
  have kp: "nths c (- ?R) = ?pre @ [H_gate q] @ ?post"
    using nths_split[OF a(2), of "- ?R"] a(3,4) by simp
  have post: "\<forall>g \<in> set ?post. q \<notin> set (qubits g)"
  proof
    fix g assume "g \<in> set ?post"
    then have "g \<in> set (drop (Suc a) c)" using set_nths_subset by fastforce
    then obtain i where i: "i < length (drop (Suc a) c)" "g = drop (Suc a) c ! i"
      by (metis in_set_conv_nth)
    then have "g = c ! (Suc a + i)" "Suc a + i < length c" by auto
    then show "q \<notin> set (qubits g)" using a(5) by simp
  qed
  have "run (?pre @ ?post) psi = apply_gate (H_gate q) (run (?pre @ [H_gate q] @ ?post) psi)"
    using H_pair_cancel[OF post] by simp
  also have "\<dots> = apply_gate (H_gate q) (run c psi)"
    using IH unfolding kp by simp
  also have "\<dots> = run (c @ [H_gate q]) psi"
    by (simp add: run_append del: apply_gate.simps)
  finally show ?thesis unfolding s rm .
qed

lemma scan_sem:
  "h_runs_ok c \<Longrightarrow> run (nths c (- set (snd (scan c)))) psi = run c psi"
proof (induction c rule: rev_induct)
  case Nil
  show ?case by simp
next
  case (snoc g c)
  from snoc.prems have ok: "h_runs_ok c" and le: "\<And>q. hcount (c @ [g]) q \<le> 2"
    by (auto simp: h_runs_ok_snoc)
  obtain lh rem where s: "scan c = (lh, rem)" by (cases "scan c")
  have inv: "scan_inv c (lh, rem)" using scan_inv_scan[OF ok] s by simp
  have IH: "run (nths c (- set rem)) psi = run c psi" using snoc.IH[OF ok] s by simp
  show ?case
  proof (cases "is_h g")
    case False
    have "scan_step (length c, g) (lh, rem) =
          (\<lambda>q. if q \<in> set (qubits g) then None else lh q, rem)"
      by (rule scan_step_other[OF False])
    from scan_sem_keep[OF inv this IH] this show ?thesis
      unfolding scan_snoc s by simp
  next
    case True
    then obtain q where g: "g = H_gate q" by (cases g) auto
    have "Suc (hcount c q) \<le> 2" using le[of q] g by simp
    then have "hcount c q = 0 \<or> hcount c q = 1" by auto
    then show ?thesis
    proof
      assume h0: "hcount c q = 0"
      then have "lh q = None" using inv by (auto simp: scan_inv_def)
      then have st: "scan_step (length c, H_gate q) (lh, rem) = (lh(q := Some (length c)), rem)"
        by simp
      from scan_sem_keep[OF inv st IH] st show ?thesis
        unfolding scan_snoc s g by simp
    next
      assume "hcount c q = 1"
      from scan_sem_H1[OF inv this IH] show ?thesis
        unfolding scan_snoc s g .
    qed
  qed
qed

lemma cleanup_run:
  assumes "h_runs_ok c"
  shows "\<exists>c'. cleanup c = Inr c' \<and> run c' = run c \<and> set c' \<subseteq> set c"
proof -
  have "run (nths c (- set (h_to_remove c))) = run c"
    using scan_sem[OF assms] unfolding h_to_remove_scan by blast
  then show ?thesis
    using cleanup_nths[OF assms] by (simp add: set_nths_subset)
qed

lemma elim_step_counter:
  assumes "elim_step sel n m k s = Inr s'" "snd s \<le> m" "lo \<le> snd s" "lo \<le> k"
  shows "snd s' \<le> m \<and> lo \<le> snd s'"
proof -
  obtain st kk where s: "s = (st, kk)" by (cases s)
  from elim_step_shape[OF assms(1)[unfolded s]] show ?thesis
  proof
    assume "find_pivot (sel (sT st)) n m k = None \<and> s' = (st, kk)"
    then show ?thesis using assms(2,3) s by simp
  next
    assume a: "find_pivot (sel (sT st)) n m k \<noteq> None \<and> snd s' = Suc k"
    then obtain i j where "find_pivot (sel (sT st)) n m k = Some (i, j)" by auto
    from find_pivot_Some[OF this] have "k < m" by simp
    then show ?thesis using a assms(4) by simp
  qed
qed

lemma loops_counter:
  assumes "foldE (elim_step sel n m) [lo..<r] (st, lo) = Inr (st', kk')" "lo \<le> m"
  shows "kk' \<le> m \<and> lo \<le> kk'"
proof -
  have "snd (st', kk') \<le> m \<and> lo \<le> snd (st', kk')"
  proof (rule foldE_inv[where P = "\<lambda>s :: state \<times> nat. snd s \<le> m \<and> lo \<le> snd s"
        and f = "elim_step sel n m" and xs = "[lo..<r]" and s = "(st, lo)" and s' = "(st', kk')"])
    fix x and s s' :: "state \<times> nat"
    assume "x \<in> set [lo..<r]" "snd s \<le> m \<and> lo \<le> snd s" "elim_step sel n m x s = Inr s'"
    then show "snd s' \<le> m \<and> lo \<le> snd s'"
      using elim_step_counter[of sel n m x s s' lo] by simp
  next
    show "snd (st, lo) \<le> m \<and> lo \<le> snd (st, lo)" using assms(2) by simp
  next
    show "foldE (elim_step sel n m) [lo..<r] (st, lo) = Inr (st', kk')" by (rule assms(1))
  qed
  then show ?thesis by simp
qed

lemma built_circuit_Inr:
  assumes "built_circuit matrix_rank paulis = Inr c"
  shows "paulis \<noteq> [] \<and> 0 < num_qubits (hd paulis) \<and>
         (\<exists>st1 kx st2 kz.
            foldE (elim_step tX (length paulis) (num_qubits (hd paulis)))
              [0..<matrix_rank (map (\<lambda>p. px p @ pz p) paulis)]
              (\<lparr>sT = init_tableau paulis, sT2 = init_tableau paulis, qc = []\<rparr>, 0) = Inr (st1, kx) \<and>
            foldE (elim_step tZ (length paulis) (num_qubits (hd paulis)))
              [kx..<matrix_rank (map (\<lambda>p. px p @ pz p) paulis)] (st1, kx) = Inr (st2, kz) \<and>
            c = qc (clifford_stages (num_qubits (hd paulis)) kx kz st2))"
proof (cases paulis)
  case Nil
  then show ?thesis using assms by (simp add: built_circuit_def)
next
  case (Cons p0 rest)
  show ?thesis
    using assms unfolding Cons built_circuit_def
    by (auto simp: Let_def split: sum.splits prod.splits if_splits)
qed

subsection \<open>The removed pairs\<close>

lemma h_pairs_append:
  assumes "h_pairs c rem"
  shows "h_pairs (c @ c2) rem"
  unfolding h_pairs_def
proof (intro conjI allI impI)
  show "even (length rem)" using assms by (simp add: h_pairs_def)
next
  fix k assume k: "2 * k + 1 < length rem"
  with assms obtain q where q: "rem ! (2 * k) < rem ! (2 * k + 1)" "rem ! (2 * k + 1) < length c"
    "c ! (rem ! (2 * k)) = H_gate q" "c ! (rem ! (2 * k + 1)) = H_gate q"
    "\<And>j. rem ! (2 * k) < j \<and> j < rem ! (2 * k + 1) \<Longrightarrow> q \<notin> set (qubits (c ! j))"
    unfolding h_pairs_def by blast
  have "\<forall>j. rem ! (2 * k) < j \<and> j < rem ! (2 * k + 1) \<longrightarrow> q \<notin> set (qubits ((c @ c2) ! j))"
    using q(1,2,5) by (auto simp: nth_append)
  then show "\<exists>q. rem ! (2 * k) < rem ! (2 * k + 1) \<and> rem ! (2 * k + 1) < length (c @ c2) \<and>
              (c @ c2) ! (rem ! (2 * k)) = H_gate q \<and> (c @ c2) ! (rem ! (2 * k + 1)) = H_gate q \<and>
              (\<forall>j. rem ! (2 * k) < j \<and> j < rem ! (2 * k + 1) \<longrightarrow>
                   q \<notin> set (qubits ((c @ c2) ! j)))"
    using q(1-4) by (intro exI[where x = q]) (simp add: nth_append)
qed

lemma h_pairs_new:
  assumes p: "h_pairs c rem" and a: "a < length c" "c ! a = H_gate q"
    and f: "\<And>b. a < b \<and> b < length c \<Longrightarrow> q \<notin> set (qubits (c ! b))"
  shows "h_pairs (c @ [H_gate q]) (rem @ [a, length c])"
  unfolding h_pairs_def
proof (intro conjI allI impI)
  show "even (length (rem @ [a, length c]))" using p by (simp add: h_pairs_def)
next
  fix k assume k: "2 * k + 1 < length (rem @ [a, length c])"
  let ?c = "c @ [H_gate q]" and ?r = "rem @ [a, length c]"
  have ev: "even (length rem)" using p by (simp add: h_pairs_def)
  show "\<exists>q. ?r ! (2 * k) < ?r ! (2 * k + 1) \<and> ?r ! (2 * k + 1) < length ?c \<and>
              ?c ! (?r ! (2 * k)) = H_gate q \<and> ?c ! (?r ! (2 * k + 1)) = H_gate q \<and>
              (\<forall>j. ?r ! (2 * k) < j \<and> j < ?r ! (2 * k + 1) \<longrightarrow> q \<notin> set (qubits (?c ! j)))"
  proof (cases "2 * k + 1 < length rem")
    case True
    from h_pairs_append[OF p, of "[H_gate q]"] True
    obtain q' where "rem ! (2 * k) < rem ! (2 * k + 1) \<and> rem ! (2 * k + 1) < length ?c \<and>
              ?c ! (rem ! (2 * k)) = H_gate q' \<and> ?c ! (rem ! (2 * k + 1)) = H_gate q' \<and>
              (\<forall>j. rem ! (2 * k) < j \<and> j < rem ! (2 * k + 1) \<longrightarrow> q' \<notin> set (qubits (?c ! j)))"
      unfolding h_pairs_def by blast
    moreover have "?r ! (2 * k) = rem ! (2 * k)" "?r ! (2 * k + 1) = rem ! (2 * k + 1)"
      using True by (simp_all add: nth_append)
    ultimately show ?thesis by (intro exI[where x = q']) simp
  next
    case False
    have "2 * k \<noteq> length rem - 1 \<or> length rem = 0" using ev by presburger
    then have e: "2 * k = length rem" using False k ev by (cases "length rem = 0") auto
    have r0: "?r ! (2 * k) = a" unfolding e by (simp add: nth_append)
    have r1: "?r ! (2 * k + 1) = length c" unfolding e by (simp add: nth_append)
    have "\<forall>j. a < j \<and> j < length c \<longrightarrow> q \<notin> set (qubits (?c ! j))"
      using f by (simp add: nth_append)
    then show ?thesis
      unfolding r0 r1 using a by (intro exI[where x = q]) (simp add: nth_append)
  qed
qed

lemma scan_pairs: "h_runs_ok c \<Longrightarrow> h_pairs c (snd (scan c))"
proof (induction c rule: rev_induct)
  case Nil
  show ?case by (simp add: h_pairs_def)
next
  case (snoc g c)
  from snoc.prems have ok: "h_runs_ok c" and le: "\<And>q. hcount (c @ [g]) q \<le> 2"
    by (auto simp: h_runs_ok_snoc)
  obtain lh rem where s: "scan c = (lh, rem)" by (cases "scan c")
  have inv: "scan_inv c (lh, rem)" using scan_inv_scan[OF ok] s by simp
  have p: "h_pairs c rem" using snoc.IH[OF ok] s by simp
  show ?case
  proof (cases "is_h g")
    case True
    then obtain q where g: "g = H_gate q" by (cases g) auto
    show ?thesis
    proof (cases "lh q")
      case None
      then have "snd (scan (c @ [g])) = rem" unfolding scan_snoc s g by simp
      then show ?thesis using h_pairs_append[OF p] by simp
    next
      case (Some a)
      have "Suc (hcount c q) \<le> 2" using le[of q] g by simp
      moreover have "hcount c q \<noteq> 0" using inv Some by (auto simp: scan_inv_def)
      ultimately have "hcount c q = 1" by simp
      with inv Some have a: "a < length c" "c ! a = H_gate q"
        and f: "\<And>b. a < b \<and> b < length c \<Longrightarrow> q \<notin> set (qubits (c ! b))"
        by (auto simp: scan_inv_def)
      have "snd (scan (c @ [g])) = rem @ [a, length c]"
        unfolding scan_snoc s g using Some by simp
      then show ?thesis using h_pairs_new[OF p a f] g by simp
    qed
  next
    case False
    have "snd (scan (c @ [g])) = rem" unfolding scan_snoc s scan_step_other[OF False] by simp
    then show ?thesis using h_pairs_append[OF p] by simp
  qed
qed

text \<open>The restriction to the circuits that \<open>sim_cliff_diag\<close> builds is needed: after a
  removed pair the entry of \<open>last_h\<close> is not reset, so on three \<open>h\<close> gates in a row on
  one qubit the first index is collected twice and the last \<open>pop\<close> is out of range. No
  circuit that reaches the cleanup has such a run (\<open>h_runs_ok\<close>).\<close>

lemma cleanup_three_h:
  "h_to_remove [H_gate 0, H_gate 0, H_gate 0] = [0, 1, 0, 2] \<and>
   cleanup [H_gate 0, H_gate 0, H_gate 0] = Inl IndexError"
  by code_simp

text \<open>
  Claim C9. The Hadamard-removal cleanup at the end of \<open>sim_cliff_diag\<close> preserves the
  operator of the circuit: for every circuit that \<open>sim_cliff_diag\<close> has built when it
  reaches the cleanup (whatever the input Paulis and the value of \<open>matrix_rank\<close>), popping
  the indices collected in \<open>h_to_remove\<close> succeeds and leaves the gates at the other
  positions, and the circuit after the cleanup, which is the one \<open>sim_cliff_diag\<close>
  returns, has the same operator as the circuit before it. The indices come in pairs:
  two \<open>h\<close> gates on the same qubit with no gate on that qubit between them.
\<close>

theorem cleanup_preserves_operator:
  assumes "built_circuit matrix_rank paulis = Inr c"
  shows "\<exists>c'. cleanup c = Inr c' \<and> c' = nths c (- set (h_to_remove c)) \<and>
           run c' = run c \<and> h_pairs c (h_to_remove c) \<and>
           (\<forall>res. sim_cliff_diag matrix_rank paulis = Inr res \<longrightarrow> fst res = c')"
proof -
  let ?n = "length paulis" and ?m = "num_qubits (hd paulis)"
  let ?T = "init_tableau paulis"
  let ?r = "matrix_rank (map (\<lambda>p. px p @ pz p) paulis)"
  from built_circuit_Inr[OF assms] obtain st1 kx st2 kz where ne: "paulis \<noteq> []"
    and pos: "0 < num_qubits (hd paulis)"
    and x: "foldE (elim_step tX ?n ?m) [0..<?r] (\<lparr>sT = ?T, sT2 = ?T, qc = []\<rparr>, 0) = Inr (st1, kx)"
    and z: "foldE (elim_step tZ ?n ?m) [kx..<?r] (st1, kx) = Inr (st2, kz)"
    and c: "c = qc (clifford_stages ?m kx kz st2)"
    by blast
  have kx: "kx \<le> ?m" using loops_counter[OF x] by simp
  have kz: "kz \<le> ?m" "kx \<le> kz" using loops_counter[OF z kx] by auto
  have "circ_inv ?m (\<lambda>q. 0) (qc (fst (st1, kx)))"
    using loops_circ[OF x] circ_inv_init by simp
  then have "circ_inv ?m (\<lambda>q. 0) (qc (fst (st2, kz)))"
    by (rule loops_circ[OF z])
  then have "circ_inv ?m (\<lambda>q. 2) c"
    unfolding c using clifford_stages_circ[OF _ kz(2) kz(1)] by simp
  then have ok: "h_runs_ok c" by (simp add: circ_inv_def)
  from cleanup_run[OF ok] obtain c' where c': "cleanup c = Inr c'" "run c' = run c" by blast
  have n: "c' = nths c (- set (h_to_remove c))" using cleanup_nths[OF ok] c'(1) by simp
  have hp: "h_pairs c (h_to_remove c)" using scan_pairs[OF ok] by (simp add: h_to_remove_scan)
  have "fst res = c'" if "sim_cliff_diag matrix_rank paulis = Inr res" for res
    using that c'(1) unfolding sim_cliff_diag_unfold[where matrix_rank = matrix_rank, OF ne pos x z] c
    by (auto split: if_splits)
  then show ?thesis using c' n hp by blast
qed

theorem cleanup_preserves_operator_witness:
  "built_circuit rank_one [mk_pauli ''Z'', mk_pauli ''Z''] = Inr [H_gate 0, H_gate 0] \<and>
   h_to_remove [H_gate 0, H_gate 0] = [0, 1] \<and>
   cleanup [H_gate 0, H_gate 0] = Inr [] \<and>
   run [] = run [H_gate 0, H_gate 0] \<and>
   fst (projr (sim_cliff_diag rank_one [mk_pauli ''Z'', mk_pauli ''Z''])) = []"
proof -
  have b: "built_circuit rank_one [mk_pauli ''Z'', mk_pauli ''Z''] = Inr [H_gate 0, H_gate 0]"
    by code_simp
  have cl: "cleanup [H_gate 0, H_gate 0] = Inr []" by code_simp
  have hr: "h_to_remove [H_gate 0, H_gate 0] = [0, 1]" by code_simp
  have s: "sim_cliff_diag rank_one [mk_pauli ''Z'', mk_pauli ''Z''] =
     Inr ([], [\<lparr>px = [False], pz = [True], phase = 0\<rparr>, \<lparr>px = [False], pz = [True], phase = 0\<rparr>])"
    by code_simp
  from cleanup_preserves_operator[OF b] cl
  have "run [] = run [H_gate 0, H_gate 0]" by auto
  then show ?thesis using b cl hr s by simp
qed

section \<open>The elimination loops find no more pivots than the rank\<close>

lemma sum_fun_apply: "(\<Sum>i \<in> S. f i) x = (\<Sum>i \<in> S. f i x)"
  by (induction S rule: infinite_finite_induct) (simp_all add: zero_fun_def plus_fun_def)

lemma scaleR_fun_apply: "(r *\<^sub>R f) x = r *\<^sub>R f x"
  by (simp add: scaleR_fun_def)

subsection \<open>An integer matrix that is the identity modulo 2 is non-singular\<close>

lemma odd_diag_nonsingular:
  fixes A :: "nat \<Rightarrow> nat \<Rightarrow> int" and x :: "nat \<Rightarrow> real"
  assumes "\<forall>a < k. \<forall>b < k. odd (A a b) = (a = b)"
    and "\<forall>b < k. (\<Sum>a < k. x a * of_int (A a b)) = 0"
  shows "\<forall>a < k. x a = 0"
  using assms
proof (induction k arbitrary: A)
  case 0
  then show ?case by simp
next
  case (Suc k)
  define A' where "A' a b = A k k * A a b - A k b * A a k" for a b
  define S where "S b = (\<Sum>a < k. x a * of_int (A a b))" for b
  have eq: "S b + x k * of_int (A k b) = 0" if "b \<le> k" for b
    using Suc.prems(2) that by (simp add: S_def)
  have odd_kk: "odd (A k k)" using Suc.prems(1) by simp
  have even_kb: "even (A k b)" if "b < k" for b
    using Suc.prems(1)[rule_format, of k b] that by simp
  have 1: "\<forall>a < k. \<forall>b < k. odd (A' a b) = (a = b)"
  proof (intro allI impI)
    fix a b assume a: "a < k" and b: "b < k"
    have "odd (A a b) = (a = b)" using Suc.prems(1) a b by simp
    then show "odd (A' a b) = (a = b)"
      unfolding A'_def using odd_kk even_kb[OF b] by simp
  qed
  have 2: "\<forall>b < k. (\<Sum>a < k. x a * of_int (A' a b)) = 0"
  proof (intro allI impI)
    fix b assume b: "b < k"
    have "(\<Sum>a < k. x a * of_int (A' a b)) =
          (\<Sum>a < k. of_int (A k k) * (x a * of_int (A a b)) - of_int (A k b) * (x a * of_int (A a k)))"
      unfolding A'_def by (intro sum.cong refl) (simp add: algebra_simps)
    also have "\<dots> = of_int (A k k) * S b - of_int (A k b) * S k"
      unfolding S_def by (simp add: sum_subtractf sum_distrib_left)
    also have "\<dots> = of_int (A k k) * (- (x k * of_int (A k b))) - of_int (A k b) * (- (x k * of_int (A k k)))"
      using eq[of b] eq[of k] b by (simp add: add_eq_0_iff2)
    also have "\<dots> = 0" by (simp add: algebra_simps)
    finally show "(\<Sum>a < k. x a * of_int (A' a b)) = 0" .
  qed
  have z: "\<forall>a < k. x a = 0" using Suc.IH[OF 1 2] .
  then have "S k = 0" by (simp add: S_def)
  then have "x k * of_int (A k k) = 0" using eq[of k] by simp
  moreover have "A k k \<noteq> 0" using odd_kk by auto
  ultimately have "x k = 0" by simp
  then show ?case using z by (auto simp: less_Suc_eq)
qed

subsection \<open>Sums modulo 2 as integer combinations\<close>

lemma rspan_comb:
  assumes "u \<in> rspan n M"
  shows "\<exists>c :: nat \<Rightarrow> int. \<forall>j.
           odd (\<Sum>i < n. c i * of_bool (tX M i j)) = fst u j \<and>
           odd (\<Sum>i < n. c i * of_bool (tZ M i j)) = snd u j"
  using assms
proof (induction rule: rspan.induct)
  case zero
  have "\<forall>j. odd (\<Sum>i < n. (0 :: int) * of_bool (tX M i j)) = fst vzero j \<and>
            odd (\<Sum>i < n. (0 :: int) * of_bool (tZ M i j)) = snd vzero j"
    by (simp add: vzero_def)
  then show ?case by (rule exI[where x = "\<lambda>i. 0"])
next
  case (row a)
  have "(\<Sum>i < n. (if i = a then 1 else 0) * g i) = g a" for g :: "nat \<Rightarrow> int"
  proof -
    have "(\<Sum>i < n. (if i = a then 1 else 0) * g i) = (\<Sum>i \<in> {..<n}. if i = a then g i else 0)"
      by (intro sum.cong) auto
    also have "\<dots> = g a" using row by (simp add: sum.delta)
    finally show ?thesis .
  qed
  then have "\<forall>j. odd (\<Sum>i < n. (if i = a then 1 else 0 :: int) * of_bool (tX M i j)) = fst (rowv M a) j \<and>
            odd (\<Sum>i < n. (if i = a then 1 else 0 :: int) * of_bool (tZ M i j)) = snd (rowv M a) j"
    by (simp add: rowv_def)
  then show ?case by (rule exI[where x = "\<lambda>i. if i = a then 1 else 0"])
next
  case (add u v)
  then obtain c d :: "nat \<Rightarrow> int" where
    c: "\<And>j. odd (\<Sum>i < n. c i * of_bool (tX M i j)) = fst u j"
       "\<And>j. odd (\<Sum>i < n. c i * of_bool (tZ M i j)) = snd u j"
    and d: "\<And>j. odd (\<Sum>i < n. d i * of_bool (tX M i j)) = fst v j"
       "\<And>j. odd (\<Sum>i < n. d i * of_bool (tZ M i j)) = snd v j"
    by blast
  have s: "(\<Sum>i < n. (c i + d i) * f i) = (\<Sum>i < n. c i * f i) + (\<Sum>i < n. d i * f i)"
    for f :: "nat \<Rightarrow> int"
    by (simp add: distrib_right sum.distrib)
  have o: "odd (a + b) = (odd a \<noteq> odd b)" for a b :: int by simp
  have "odd (\<Sum>i < n. (c i + d i) * of_bool (tX M i j)) = fst (vxor u v) j" for j
    unfolding s o c d by (simp add: vxor_def)
  moreover have "odd (\<Sum>i < n. (c i + d i) * of_bool (tZ M i j)) = snd (vxor u v) j" for j
    unfolding s o c d by (simp add: vxor_def)
  ultimately have "\<forall>j. odd (\<Sum>i < n. (c i + d i) * of_bool (tX M i j)) = fst (vxor u v) j \<and>
            odd (\<Sum>i < n. (c i + d i) * of_bool (tZ M i j)) = snd (vxor u v) j"
    by blast
  then show ?case by (rule exI[where x = "\<lambda>i. c i + d i"])
qed

subsection \<open>Pivots are independent rows\<close>

lemma card_le_dim_span:
  fixes W V :: "('a \<Rightarrow> real) set"
  assumes "finite V" "independent W" "W \<subseteq> span V"
  shows "card W \<le> dim V"
proof -
  obtain B where B: "B \<subseteq> V" "independent B" "V \<subseteq> span B" "card B = dim V"
    by (rule real_vector.basis_exists)
  have fB: "finite B" using B(1) assms(1) by (rule finite_subset)
  have "span V \<subseteq> span B"
    using real_vector.span_mono[OF B(3)] by (simp add: real_vector.span_span)
  then have "W \<subseteq> span B" using assms(3) by blast
  from real_vector.independent_span_bound[OF fB assms(2) this] B(4) show ?thesis by simp
qed

lemma rank_lower_bound:
  assumes rf: "rows_from n m M T" and k: "kx \<le> kz" "kz \<le> n" "kz \<le> m"
    and ux: "ublock (tX T) n 0 kx" and uz: "ublock (tZ T) n kx kz"
  shows "kz \<le> dim (tvec m M ` {..<n})"
proof -
  from rf obtain \<sigma> where sg: "\<And>j. j < m \<Longrightarrow> \<sigma> j < m"
    and U: "\<And>a. a < n \<Longrightarrow>
              \<exists>u \<in> rspan n M. \<forall>j < m. tX T a j = fst u (\<sigma> j) \<and> tZ T a j = snd u (\<sigma> j)"
    unfolding rows_from_def by blast
  have "\<forall>a. \<exists>c :: nat \<Rightarrow> int. a < n \<longrightarrow>
          (\<forall>j < m. odd (\<Sum>i < n. c i * of_bool (tX M i (\<sigma> j))) = tX T a j \<and>
                    odd (\<Sum>i < n. c i * of_bool (tZ M i (\<sigma> j))) = tZ T a j)"
  proof (intro allI)
    fix a
    show "\<exists>c :: nat \<Rightarrow> int. a < n \<longrightarrow>
          (\<forall>j < m. odd (\<Sum>i < n. c i * of_bool (tX M i (\<sigma> j))) = tX T a j \<and>
                    odd (\<Sum>i < n. c i * of_bool (tZ M i (\<sigma> j))) = tZ T a j)"
    proof (cases "a < n")
      case True
      from U[OF True] obtain u where u: "u \<in> rspan n M"
        "\<And>j. j < m \<Longrightarrow> tX T a j = fst u (\<sigma> j) \<and> tZ T a j = snd u (\<sigma> j)" by blast
      from rspan_comb[OF u(1)] obtain c :: "nat \<Rightarrow> int" where
        "\<And>j. odd (\<Sum>i < n. c i * of_bool (tX M i j)) = fst u j \<and>
             odd (\<Sum>i < n. c i * of_bool (tZ M i j)) = snd u j" by blast
      then have "\<forall>j < m. odd (\<Sum>i < n. c i * of_bool (tX M i (\<sigma> j))) = tX T a j \<and>
                    odd (\<Sum>i < n. c i * of_bool (tZ M i (\<sigma> j))) = tZ T a j"
        using u(2) by simp
      then show ?thesis by blast
    next
      case False
      then show ?thesis by simp
    qed
  qed
  then obtain c :: "nat \<Rightarrow> nat \<Rightarrow> int" where
    c: "\<And>a j. a < n \<Longrightarrow> j < m \<Longrightarrow>
           odd (\<Sum>i < n. c a i * of_bool (tX M i (\<sigma> j))) = tX T a j \<and>
           odd (\<Sum>i < n. c a i * of_bool (tZ M i (\<sigma> j))) = tZ T a j"
    using choice[where Q = "\<lambda>a c. a < n \<longrightarrow>
          (\<forall>j < m. odd (\<Sum>i < n. c i * of_bool (tX M i (\<sigma> j))) = tX T a j \<and>
                    odd (\<Sum>i < n. c i * of_bool (tZ M i (\<sigma> j))) = tZ T a j)"]
    by blast
  define A :: "nat \<Rightarrow> nat \<Rightarrow> int" where
    "A a b = (if b < kx then (\<Sum>i < n. c a i * of_bool (tX M i (\<sigma> b)))
              else (\<Sum>i < n. c a i * of_bool (tZ M i (\<sigma> b))))" for a b
  define coord where "coord b = (if b < kx then \<sigma> b else m + \<sigma> b)" for b
  define w :: "nat \<Rightarrow> nat \<Rightarrow> real" where
    "w a = (\<Sum>i < n. of_int (c a i) *\<^sub>R tvec m M i)" for a
  have oddA: "odd (A a b) = (a = b)" if "a < kz" "b < kz" for a b
  proof (cases "b < kx")
    case True
    have "odd (A a b) = tX T a b" using c[of a b] that k True by (simp add: A_def)
    also have "\<dots> = (a = b)" using ux that k True by (simp add: ublock_def)
    finally show ?thesis .
  next
    case False
    have "odd (A a b) = tZ T a b" using c[of a b] that k False by (simp add: A_def)
    also have "\<dots> = (a = b)" using uz that k False by (simp add: ublock_def)
    finally show ?thesis .
  qed
  have wA: "w a (coord b) = of_int (A a b)" if "b < kz" for a b
  proof -
    have bm: "b < m" using that k by simp
    have "w a (coord b) = (\<Sum>i < n. of_int (c a i) * tvec m M i (coord b))"
      by (simp add: w_def sum_fun_apply scaleR_fun_apply)
    also have "\<dots> = of_int (A a b)"
    proof (cases "b < kx")
      case True
      then show ?thesis using sg[OF bm] by (simp add: A_def coord_def tvec_def)
    next
      case False
      then show ?thesis using sg[OF bm] by (simp add: A_def coord_def tvec_def)
    qed
    finally show ?thesis .
  qed
  have wspan: "w a \<in> span (tvec m M ` {..<n})" for a
    unfolding w_def
    by (intro real_vector.span_sum real_vector.span_scale real_vector.span_base) simp
  have inj: "inj_on w {..<kz}"
  proof (rule inj_onI)
    fix a a' assume a: "a \<in> {..<kz}" "a' \<in> {..<kz}" and e: "w a = w a'"
    have "(of_int (A a a) :: real) = of_int (A a' a)"
      using wA[of a a] wA[of a a'] a e by simp
    then have "A a a = A a' a" by simp
    then show "a = a'" using oddA[of a a] oddA[of a' a] a by auto
  qed
  have ind: "independent (w ` {..<kz})"
  proof (rule real_vector.independent_if_scalars_zero)
    show "finite (w ` {..<kz})" by simp
  next
    fix f :: "(nat \<Rightarrow> real) \<Rightarrow> real" and x
    assume s: "(\<Sum>x \<in> w ` {..<kz}. f x *\<^sub>R x) = 0" and x: "x \<in> w ` {..<kz}"
    have s': "(\<Sum>a < kz. f (w a) *\<^sub>R w a) = 0"
      using s by (simp add: sum.reindex[OF inj])
    have "\<forall>b < kz. (\<Sum>a < kz. f (w a) * of_int (A a b)) = 0"
    proof (intro allI impI)
      fix b assume b: "b < kz"
      have "(\<Sum>a < kz. f (w a) * of_int (A a b)) = (\<Sum>a < kz. f (w a) *\<^sub>R w a) (coord b)"
        using wA[OF b] by (simp add: sum_fun_apply scaleR_fun_apply)
      then show "(\<Sum>a < kz. f (w a) * of_int (A a b)) = 0"
        unfolding s' by (simp add: zero_fun_def)
    qed
    with odd_diag_nonsingular[of kz A "\<lambda>a. f (w a)"] oddA have "\<forall>a < kz. f (w a) = 0"
      by blast
    then show "f x = 0" using x by auto
  qed
  have "card (w ` {..<kz}) \<le> dim (tvec m M ` {..<n})"
    by (rule card_le_dim_span) (use ind wspan in auto)
  then show ?thesis by (simp add: card_image[OF inj])
qed

subsection \<open>The rows of the interim tableau are sums of the input rows\<close>

lemma rows_from_refl: "rows_from n m M M"
  unfolding rows_from_def
proof (intro exI[where x = "\<lambda>j. j"] conjI allI impI)
  fix a assume a: "a < n"
  have "rowv M a \<in> rspan n M" using a by (rule rspan.row)
  moreover have "\<forall>j < m. tX M a j = fst (rowv M a) j \<and> tZ M a j = snd (rowv M a) j"
    by (simp add: rowv_def)
  ultimately show "\<exists>u \<in> rspan n M. \<forall>j < m. tX M a j = fst u j \<and> tZ M a j = snd u j"
    by blast
qed simp

lemma rows_from_step:
  assumes rf: "rows_from n m M T" and p: "pivoted sel n i j k T T'"
    and b: "k \<le> i" "i < n" "k \<le> j" "j < m"
  shows "rows_from n m M T'"
proof -
  from rf obtain \<sigma> where sg: "\<And>j. j < m \<Longrightarrow> \<sigma> j < m"
    and U: "\<And>a. a < n \<Longrightarrow>
              \<exists>u \<in> rspan n M. \<forall>j < m. tX T a j = fst u (\<sigma> j) \<and> tZ T a j = snd u (\<sigma> j)"
    unfolding rows_from_def by blast
  have kn: "k < n" "k < m" using b by auto
  have X': "tX T' r c =
         (if r < n \<and> r \<noteq> k \<and> sel T (swp i k r) j
          then tX T (swp i k r) (swp j k c) \<noteq> tX T i (swp j k c)
          else tX T (swp i k r) (swp j k c))" for r c
    using p unfolding pivoted_def by auto
  have Z': "tZ T' r c =
         (if r < n \<and> r \<noteq> k \<and> sel T (swp i k r) j
          then tZ T (swp i k r) (swp j k c) \<noteq> tZ T i (swp j k c)
          else tZ T (swp i k r) (swp j k c))" for r c
    using p unfolding pivoted_def by auto
  have sl: "swp j k c < m" if "c < m" for c using swp_less[OF b(4) kn(2) that] .
  show ?thesis
    unfolding rows_from_def
  proof (intro exI[where x = "\<lambda>c. \<sigma> (swp j k c)"] conjI allI impI)
    fix c assume "c < m"
    then show "\<sigma> (swp j k c) < m" using sg sl by simp
  next
    fix a assume a: "a < n"
    have a': "swp i k a < n" using swp_less[OF b(2) kn(1) a] .
    from U[OF a'] obtain u where u: "u \<in> rspan n M"
      "\<And>c. c < m \<Longrightarrow> tX T (swp i k a) c = fst u (\<sigma> c) \<and> tZ T (swp i k a) c = snd u (\<sigma> c)"
      by blast
    from U[OF b(2)] obtain v where v: "v \<in> rspan n M"
      "\<And>c. c < m \<Longrightarrow> tX T i c = fst v (\<sigma> c) \<and> tZ T i c = snd v (\<sigma> c)"
      by blast
    show "\<exists>u \<in> rspan n M. \<forall>c < m. tX T' a c = fst u (\<sigma> (swp j k c)) \<and>
                                   tZ T' a c = snd u (\<sigma> (swp j k c))"
    proof (cases "a \<noteq> k \<and> sel T (swp i k a) j")
      case True
      have "vxor u v \<in> rspan n M" using u(1) v(1) by (rule rspan.add)
      moreover have "\<forall>c < m. tX T' a c = fst (vxor u v) (\<sigma> (swp j k c)) \<and>
                             tZ T' a c = snd (vxor u v) (\<sigma> (swp j k c))"
        using True a u(2) v(2) sl by (simp add: X' Z' vxor_def)
      ultimately show ?thesis by blast
    next
      case False
      have "\<forall>c < m. tX T' a c = fst u (\<sigma> (swp j k c)) \<and> tZ T' a c = snd u (\<sigma> (swp j k c))"
        using False a u(2) sl by (auto simp: X' Z')
      then show ?thesis using u(1) by blast
    qed
  qed
qed

text \<open>The two loops with the number of rows as their bound, with an invariant \<open>E\<close> of
  the interim tableau that every pivot step keeps.\<close>

lemma loops_bound_n_inv:
  assumes comm: "comm_rows n m T" and E0: "E T"
    and Estep: "\<And>sel T T' i j k. E T \<Longrightarrow> pivoted sel n i j k T T' \<Longrightarrow>
                  k \<le> i \<Longrightarrow> i < n \<Longrightarrow> k \<le> j \<Longrightarrow> j < m \<Longrightarrow> E T'"
  shows "\<exists>st1 kx st2 kz.
           foldE (elim_step tX n m) [0..<n] (\<lparr>sT = T, sT2 = T, qc = []\<rparr>, 0) = Inr (st1, kx) \<and>
           foldE (elim_step tZ n m) [kx..<n] (st1, kx) = Inr (st2, kz) \<and>
           post_loops n m kx kz (sT st2) \<and> in_span n (sT2 st2) (sT st2) \<and> E (sT st2)"
proof -
  let ?s0 = "(\<lparr>sT = T, sT2 = T, qc = []\<rparr>, 0 :: nat)"
  have i0: "loop_inv tX n m 0 E 0 ?s0"
    using comm E0 by (simp add: loop_inv_def in_span_refl ublock_def)
  have "\<exists>s'. foldE (elim_step tX n m) [0..<n] ?s0 = Inr s' \<and> loop_inv tX n m 0 E n s'"
  proof (rule loop_run[OF _ _ _ _ i0])
    show "tX = tX \<or> tX = tZ" by simp
  next
    fix T T' i j k
    assume "E T" "pivoted tX n i j k T T'" "0 \<le> k" "k \<le> i" "i < n" "k \<le> j" "j < m"
    then show "E T'" using Estep[of T tX i j k T'] by simp
  qed simp_all
  then obtain st1 kx where 1: "foldE (elim_step tX n m) [0..<n] ?s0 = Inr (st1, kx)"
    and l1: "loop_inv tX n m 0 E n (st1, kx)" by auto
  from l1 have c1: "comm_rows n m (sT st1)" and sp1: "in_span n (sT2 st1) (sT st1)"
    and k1: "kx \<le> n" "kx \<le> m" and u1: "ublock (tX (sT st1)) n 0 kx"
    and e1: "kx < n \<longrightarrow> find_pivot (tX (sT st1)) n m kx = None"
    and E1: "E (sT st1)"
    by (auto simp: loop_inv_def)
  have ex1: "find_pivot (tX (sT st1)) n m kx = None"
    using e1 k1(1) by (cases "kx < n") auto
  have x1: "xinv n m kx (tX (sT st1))"
    unfolding xinv_def
  proof (intro conjI allI impI)
    show "ublock (tX (sT st1)) n 0 kx" by (rule u1)
  next
    fix i j assume i: "kx \<le> i \<and> i < n" and j: "j < m"
    show "\<not> tX (sT st1) i j"
    proof (cases "kx \<le> j")
      case True
      then show ?thesis using ex1 i j unfolding find_pivot_None by auto
    next
      case False
      then show ?thesis using u1 i by (auto simp: ublock_def)
    qed
  qed
  have i2: "loop_inv tZ n m kx (\<lambda>T. xinv n m kx (tX T) \<and> E T) kx (st1, kx)"
    using c1 sp1 x1 k1 E1 by (auto simp: loop_inv_def ublock_def)
  have "\<exists>s'. foldE (elim_step tZ n m) [kx..<n] (st1, kx) = Inr s' \<and>
             loop_inv tZ n m kx (\<lambda>T. xinv n m kx (tX T) \<and> E T) n s'"
  proof (rule loop_run[OF _ _ k1(1) order_refl i2])
    show "tZ = tX \<or> tZ = tZ" by simp
  next
    fix T T' i j k
    assume a: "xinv n m kx (tX T) \<and> E T" "pivoted tZ n i j k T T'"
      "kx \<le> k" "k \<le> i" "i < n" "k \<le> j" "j < m"
    have "xinv n m kx (tX T')" using a xinv_step[of n i j k T T' m kx] k1(2) by simp
    moreover have "E T'" using a Estep[of T tZ i j k T'] by simp
    ultimately show "xinv n m kx (tX T') \<and> E T'" by simp
  qed
  then obtain st2 kz where 2: "foldE (elim_step tZ n m) [kx..<n] (st1, kx) = Inr (st2, kz)"
    and l2: "loop_inv tZ n m kx (\<lambda>T. xinv n m kx (tX T) \<and> E T) n (st2, kz)" by auto
  from l2 have c2: "comm_rows n m (sT st2)" and sp2: "in_span n (sT2 st2) (sT st2)"
    and x2: "xinv n m kx (tX (sT st2))" and E2: "E (sT st2)"
    and k2: "kx \<le> kz" "kz \<le> n" "kz \<le> m" and u2: "ublock (tZ (sT st2)) n kx kz"
    and e2: "kz < n \<longrightarrow> find_pivot (tZ (sT st2)) n m kz = None"
    by (auto simp: loop_inv_def)
  have ex2: "find_pivot (tZ (sT st2)) n m kz = None"
    using e2 k2(2) by (cases "kz < n") auto
  have "post_loops n m kx kz (sT st2)"
    unfolding post_loops_def using k2 c2 x2 u2 ex2 by simp
  then show ?thesis using 1 2 sp2 E2 by blast
qed

text \<open>Rows of the concatenated matrix.\<close>

lemma row_vec_tvec:
  assumes len: "\<forall>p \<in> set paulis. length (px p) = m \<and> length (pz p) = m"
  shows "row_vec ` set (map (\<lambda>p. px p @ pz p) paulis) =
         tvec m (init_tableau paulis) ` {..<length paulis}"
proof -
  have e: "row_vec (px (paulis ! i) @ pz (paulis ! i)) = tvec m (init_tableau paulis) i"
    if i: "i < length paulis" for i
  proof
    fix j
    have l: "length (px (paulis ! i)) = m" "length (pz (paulis ! i)) = m"
      using len i by auto
    show "row_vec (px (paulis ! i) @ pz (paulis ! i)) j = tvec m (init_tableau paulis) i j"
      using l i by (auto simp: row_vec_def tvec_def init_tableau_def mat_of_def nth_append)
  qed
  have "set (map (\<lambda>p. px p @ pz p) paulis) =
        (\<lambda>i. px (paulis ! i) @ pz (paulis ! i)) ` {..<length paulis}"
  proof -
    have "set paulis = (\<lambda>i. paulis ! i) ` {..<length paulis}"
      by (auto simp: set_conv_nth image_iff)
    then have "(\<lambda>p. px p @ pz p) ` set paulis =
               (\<lambda>p. px p @ pz p) ` ((\<lambda>i. paulis ! i) ` {..<length paulis})"
      by simp
    then show ?thesis by (simp add: image_image)
  qed
  then have "row_vec ` set (map (\<lambda>p. px p @ pz p) paulis) =
        (\<lambda>i. row_vec (px (paulis ! i) @ pz (paulis ! i))) ` {..<length paulis}"
    by (simp add: image_image)
  also have "\<dots> = tvec m (init_tableau paulis) ` {..<length paulis}"
    by (intro image_cong refl) (use e in auto)
  finally show ?thesis .
qed

text \<open>The two elimination loops never find more pivots than the rank of the matrix
  \<open>np.concatenate((X, Z), axis=1)\<close>.\<close>

lemma elim_pivots_le_rank:
  assumes len: "\<forall>p \<in> set paulis. length (px p) = num_qubits (hd paulis) \<and>
                               length (pz p) = num_qubits (hd paulis)"
    and comm: "\<forall>p \<in> set paulis. \<forall>q \<in> set paulis. commutes p q"
  shows "elim_pivots paulis \<le> exact_rank (map (\<lambda>p. px p @ pz p) paulis)"
proof -
  let ?n = "length paulis" and ?m = "num_qubits (hd paulis)"
  let ?T = "init_tableau paulis"
  have c0: "comm_rows ?n ?m ?T" using comm_rows_init[OF len comm] .
  from loops_bound_n_inv[where E = "rows_from ?n ?m ?T", OF c0 rows_from_refl]
  obtain st1 kx st2 kz where
    1: "foldE (elim_step tX ?n ?m) [0..<?n] (\<lparr>sT = ?T, sT2 = ?T, qc = []\<rparr>, 0) = Inr (st1, kx)"
    and 2: "foldE (elim_step tZ ?n ?m) [kx..<?n] (st1, kx) = Inr (st2, kz)"
    and p: "post_loops ?n ?m kx kz (sT st2)" and rf: "rows_from ?n ?m ?T (sT st2)"
    using rows_from_step by blast
  have piv: "elim_pivots paulis = kz"
    using 1 2 by (simp add: elim_pivots_def Let_def)
  from p have k: "kx \<le> kz" "kz \<le> ?n" "kz \<le> ?m"
    and ux: "ublock (tX (sT st2)) ?n 0 kx" and uz: "ublock (tZ (sT st2)) ?n kx kz"
    by (auto simp: post_loops_def xinv_def)
  have "kz \<le> dim (tvec ?m ?T ` {..<?n})"
    using rank_lower_bound[OF rf k ux uz] .
  then show ?thesis
    unfolding piv exact_rank_def row_vec_tvec[OF len] .
qed

lemma sim_cliff_diag_cong:
  assumes "r1 (map (\<lambda>p. px p @ pz p) paulis) = r2 (map (\<lambda>p. px p @ pz p) paulis)"
  shows "sim_cliff_diag r1 paulis = sim_cliff_diag r2 paulis"
  unfolding sim_cliff_diag_def assms by (rule refl)

lemma exact_rank_single:
  assumes s: "set M = {r}" and t: "True \<in> set r"
  shows "exact_rank M = 1"
proof -
  from t obtain j where j: "j < length r" "r ! j" unfolding in_set_conv_nth by auto
  have "row_vec r j \<noteq> (0 :: nat \<Rightarrow> real) j" using j by (simp add: row_vec_def zero_fun_def)
  then have "row_vec r \<noteq> 0" by auto
  then have "independent {row_vec r}" by (simp add: real_vector.dependent_single)
  then have "dim {row_vec r} = card {row_vec r}" by (rule real_vector.dim_eq_card_independent)
  then show ?thesis by (simp add: exact_rank_def s)
qed

text \<open>
  Claim C2. For every non-empty list of pairwise commuting Pauli operators on the same
  qubits (at least one), \<open>sim_cliff_diag\<close>, with \<open>np.linalg.matrix_rank\<close> returning the
  rank of the matrix, returns: it raises neither of its assertions, nor the exception of
  \<open>sweep_rows\<close>, nor an IndexError in its cleanup. It returns one Pauli operator per
  input operator, each with an all-zero X-component (a product of identity and Pauli-Z
  factors only), and a circuit that contains only CNOT, Hadamard and S gates on the
  qubits of the register.
\<close>

theorem sim_cliff_diag_diagonal:
  assumes ne: "paulis \<noteq> []" and pos: "0 < num_qubits (hd paulis)"
    and len: "\<forall>p \<in> set paulis. length (px p) = num_qubits (hd paulis) \<and>
                               length (pz p) = num_qubits (hd paulis)"
    and comm: "\<forall>p \<in> set paulis. \<forall>q \<in> set paulis. commutes p q"
  shows "\<exists>c ps. sim_cliff_diag exact_rank paulis = Inr (c, ps) \<and>
           length ps = length paulis \<and>
           (\<forall>p \<in> set ps. px p = replicate (num_qubits (hd paulis)) False \<and>
                          length (pz p) = num_qubits (hd paulis)) \<and>
           (\<forall>g \<in> set c. diag_gate (num_qubits (hd paulis)) g)"
  using sim_cliff_diag_rank_ok[where matrix_rank = exact_rank,
          OF ne pos len comm elim_pivots_le_rank[OF len comm]] .

theorem sim_cliff_diag_diagonal_witness:
  "[mk_pauli ''Y'', mk_pauli ''Y''] \<noteq> [] \<and>
   0 < num_qubits (hd [mk_pauli ''Y'', mk_pauli ''Y'']) \<and>
   commutes (mk_pauli ''Y'') (mk_pauli ''Y'') \<and>
   exact_rank [[True, True], [True, True]] = 1 \<and>
   sim_cliff_diag exact_rank [mk_pauli ''Y'', mk_pauli ''Y''] =
     Inr ([S_gate 0, H_gate 0],
          [\<lparr>px = [False], pz = [True], phase = 2\<rparr>, \<lparr>px = [False], pz = [True], phase = 2\<rparr>]) \<and>
   (\<exists>c ps. sim_cliff_diag exact_rank [mk_pauli ''Y'', mk_pauli ''Y''] = Inr (c, ps) \<and>
      length ps = 2 \<and> list_all (\<lambda>p. px p = [False]) ps \<and> list_all (diag_gate 1) c)"
proof -
  let ?ps = "[mk_pauli ''Y'', mk_pauli ''Y'']"
  have ne: "?ps \<noteq> []" by simp
  have m: "num_qubits (hd ?ps) = 1" by (simp add: mk_pauli_def num_qubits_def)
  have pos: "0 < num_qubits (hd ?ps)" unfolding m by simp
  have len: "\<forall>p \<in> set ?ps. length (px p) = num_qubits (hd ?ps) \<and>
                            length (pz p) = num_qubits (hd ?ps)"
    by (simp add: mk_pauli_def num_qubits_def)
  have comm: "\<forall>p \<in> set ?ps. \<forall>q \<in> set ?ps. commutes p q"
    by (simp add: mk_pauli_def commutes_def count_and_def)
  have rk: "exact_rank [[True, True], [True, True]] = 1"
    by (rule exact_rank_single[where r = "[True, True]"]) simp_all
  have mx: "map (\<lambda>p. px p @ pz p) ?ps = [[True, True], [True, True]]"
    by (simp add: mk_pauli_def)
  have "sim_cliff_diag exact_rank ?ps = sim_cliff_diag rank_one ?ps"
    by (rule sim_cliff_diag_cong) (simp only: mx rk rank_one_def)
  also have "\<dots> =
     Inr ([S_gate 0, H_gate 0],
          [\<lparr>px = [False], pz = [True], phase = 2\<rparr>, \<lparr>px = [False], pz = [True], phase = 2\<rparr>])"
    by code_simp
  finally have ev: "sim_cliff_diag exact_rank ?ps =
     Inr ([S_gate 0, H_gate 0],
          [\<lparr>px = [False], pz = [True], phase = 2\<rparr>, \<lparr>px = [False], pz = [True], phase = 2\<rparr>])" .
  have r1: "replicate 1 False = [False]" by simp
  from sim_cliff_diag_diagonal[OF ne pos len comm]
  have "\<exists>c ps. sim_cliff_diag exact_rank ?ps = Inr (c, ps) \<and>
      length ps = 2 \<and> list_all (\<lambda>p. px p = [False]) ps \<and> list_all (diag_gate 1) c"
    unfolding m r1 list_all_iff by auto
  then show ?thesis using ne pos comm rk ev by simp
qed



section \<open>The master circuit: order and inverse\<close>

lemma sim_cliff_diag_Inr:
  assumes "sim_cliff_diag matrix_rank paulis = Inr (c, ps)"
  shows "paulis \<noteq> [] \<and> 0 < num_qubits (hd paulis) \<and>
         (\<exists>st1 kx st2 kz.
            foldE (elim_step tX (length paulis) (num_qubits (hd paulis)))
              [0..<matrix_rank (map (\<lambda>p. px p @ pz p) paulis)]
              (\<lparr>sT = init_tableau paulis, sT2 = init_tableau paulis, qc = []\<rparr>, 0) = Inr (st1, kx) \<and>
            foldE (elim_step tZ (length paulis) (num_qubits (hd paulis)))
              [kx..<matrix_rank (map (\<lambda>p. px p @ pz p) paulis)] (st1, kx) = Inr (st2, kz) \<and>
            cleanup (qc (clifford_stages (num_qubits (hd paulis)) kx kz st2)) = Inr c)"
proof (cases paulis)
  case Nil
  then show ?thesis using assms by (simp add: sim_cliff_diag_def)
next
  case (Cons p0 rest)
  show ?thesis
    using assms unfolding Cons sim_cliff_diag_def
    by (auto simp: Let_def split: sum.splits prod.splits if_splits)
qed

lemma sim_cliff_diag_gates:
  assumes "sim_cliff_diag matrix_rank paulis = Inr (c, ps)"
  shows "\<forall>g \<in> set c. diag_gate (num_qubits (hd paulis)) g"
proof -
  let ?n = "length paulis" and ?m = "num_qubits (hd paulis)"
  let ?T = "init_tableau paulis"
  let ?r = "matrix_rank (map (\<lambda>p. px p @ pz p) paulis)"
  from sim_cliff_diag_Inr[OF assms] obtain st1 kx st2 kz where
    x: "foldE (elim_step tX ?n ?m) [0..<?r] (\<lparr>sT = ?T, sT2 = ?T, qc = []\<rparr>, 0) = Inr (st1, kx)"
    and z: "foldE (elim_step tZ ?n ?m) [kx..<?r] (st1, kx) = Inr (st2, kz)"
    and c: "cleanup (qc (clifford_stages ?m kx kz st2)) = Inr c"
    by blast
  have kx: "kx \<le> ?m" using loops_counter[OF x] by simp
  have kz: "kz \<le> ?m" "kx \<le> kz" using loops_counter[OF z kx] by auto
  have "circ_inv ?m (\<lambda>q. 0) (qc (fst (st1, kx)))"
    using loops_circ[OF x] circ_inv_init by simp
  then have "circ_inv ?m (\<lambda>q. 0) (qc (fst (st2, kz)))"
    by (rule loops_circ[OF z])
  then have ci: "circ_inv ?m (\<lambda>q. 2) (qc (clifford_stages ?m kx kz st2))"
    using clifford_stages_circ[OF _ kz(2) kz(1)] by simp
  then have ok: "h_runs_ok (qc (clifford_stages ?m kx kz st2))"
    and dg: "\<forall>g \<in> set (qc (clifford_stages ?m kx kz st2)). diag_gate ?m g"
    by (auto simp: circ_inv_def)
  from cleanup_gates[OF ok] c have "set c \<subseteq> set (qc (clifford_stages ?m kx kz st2))"
    by auto
  then show ?thesis using dg by blast
qed

lemma diag_gate_distinct: "diag_gate m g \<Longrightarrow> distinct (qubits g)"
  by (cases g) (auto simp: diag_gate_def)

text \<open>The gate that \<open>inverse()\<close> puts in the place of a gate undoes it.\<close>

lemma apply_gate_inverse:
  assumes "distinct (qubits g)"
  shows "apply_gate (gate_inverse g) (apply_gate g psi) = psi"
proof (cases g)
  case (H_gate q)
  then show ?thesis by (simp add: H_H del: apply_gate.simps)
next
  case (S_gate q)
  then show ?thesis by (auto simp: fun_eq_iff)
next
  case (Sdg_gate q)
  then show ?thesis by (auto simp: fun_eq_iff)
next
  case (CX_gate c t)
  then have ct: "c \<noteq> t" using assms by simp
  have "(b(t := b t \<noteq> b c))(t := (b(t := b t \<noteq> b c)) t \<noteq> (b(t := b t \<noteq> b c)) c) = b"
    for b :: "nat \<Rightarrow> bool"
    using ct by (auto simp: fun_eq_iff)
  then show ?thesis by (simp only: CX_gate gate_inverse.simps apply_gate.simps)
next
  case (RZ_gate a q)
  have "cis (a / 2) * cis (- a / 2) = 1" "cis (- a / 2) * cis (a / 2) = 1"
    by (simp_all add: cis_mult)
  then show ?thesis using RZ_gate by (auto simp: fun_eq_iff simp flip: mult.assoc)
next
  case (P_gate a q)
  have "cis (- a) * cis a = 1" by (simp add: cis_mult)
  then show ?thesis using P_gate by (auto simp: fun_eq_iff simp flip: mult.assoc)
next
  case (X_gate q)
  have "(b(q := \<not> b q))(q := \<not> (b(q := \<not> b q)) q) = b" for b :: "nat \<Rightarrow> bool"
    by (auto simp: fun_eq_iff)
  then show ?thesis using X_gate by (simp add: fun_eq_iff)
qed

lemma run_inverse:
  "\<forall>g \<in> set c. distinct (qubits g) \<Longrightarrow> run (map gate_inverse (rev c)) (run c psi) = psi"
proof (induction c arbitrary: psi)
  case Nil
  then show ?case by simp
next
  case (Cons g c)
  have "run (map gate_inverse (rev (g # c))) (run (g # c) psi) =
        apply_gate (gate_inverse g) (run (map gate_inverse (rev c)) (run c (apply_gate g psi)))"
    by (simp add: run_append run_Cons del: apply_gate.simps)
  also have "\<dots> = apply_gate (gate_inverse g) (apply_gate g psi)"
    using Cons.IH[of "apply_gate g psi"] Cons.prems by simp
  also have "\<dots> = psi" using apply_gate_inverse[of g psi] Cons.prems by simp
  finally show ?case .
qed

lemma order_twice:
  "list_all (\<lambda>i. count_list
      ([6, 7, 9, 1, 11, 18, 4, 13, 12, 0, 19, 15, 17, 3, 5, 2, 20, 10, 8, 16, 14] @
       [6, 7, 9, 1, 11, 18, 4, 13, 12, 0, 19, 15, 17, 3, 5, 2, 20, 10, 8, 16, 14]) i = 2) [0..<21]"
  by code_simp

text \<open>
  Claim C3. With the 21 per-group circuits, the master circuit is the concatenation,
  repeated \<open>n = 2\<close> times, of the group circuits in the order
  \<open>[6, 7, 9, 1, 11, 18, 4, 13, 12, 0, 19, 15, 17, 3, 5, 2, 20, 10, 8, 16, 14]\<close>; every group
  index below 21 occurs exactly twice in that sequence; and each group circuit is the
  group's diagonalizing circuit, then the circuit of the diagonal Paulis, then the inverse
  of the diagonalizing circuit: its gates in reverse order, each replaced by its inverse
  gate, a circuit whose operator undoes the operator of the diagonalizing circuit.
\<close>

theorem master_circuit_structure:
  assumes "group_circuits rank 2 groups = Inr circuits" and "length groups = 21"
  shows "master_circuit 2 circuits =
           Inr (concat (map ((!) circuits)
             ([6, 7, 9, 1, 11, 18, 4, 13, 12, 0, 19, 15, 17, 3, 5, 2, 20, 10, 8, 16, 14] @
              [6, 7, 9, 1, 11, 18, 4, 13, 12, 0, 19, 15, 17, 3, 5, 2, 20, 10, 8, 16, 14]))) \<and>
         (\<forall>i < 21.
            count_list
              ([6, 7, 9, 1, 11, 18, 4, 13, 12, 0, 19, 15, 17, 3, 5, 2, 20, 10, 8, 16, 14] @
               [6, 7, 9, 1, 11, 18, 4, 13, 12, 0, 19, 15, 17, 3, 5, 2, 20, 10, 8, 16, 14]) i = 2 \<and>
            (\<exists>diag_qc diag_paulis diag_paulis_qc.
               sim_cliff_diag rank (map primitive (groups ! i)) = Inr (diag_qc, diag_paulis) \<and>
               walk_paulis (new_paulis 2 (groups ! i) diag_paulis) = Inr diag_paulis_qc \<and>
               circuits ! i = diag_qc @ diag_paulis_qc @ map gate_inverse (rev diag_qc) \<and>
               (\<forall>psi. run (map gate_inverse (rev diag_qc)) (run diag_qc psi) = psi)))"
proof -
  let ?ord = "[6, 7, 9, 1, 11, 18, 4, 13, 12, 0, 19, 15, 17, 3, 5, 2, 20, 10, 8, 16, 14] :: nat list"
  have len: "length circuits = 21"
    using group_circuits_length[OF assms(1)] assms(2) by simp
  then have ne: "circuits \<noteq> []" by auto
  have b: "\<forall>i \<in> set group_order. i < length circuits"
    using group_order_bound len by simp
  have two: "[0..<2] = [0, 1]" by (simp add: upt_rec)
  have "master_circuit 2 circuits =
           Inr (concat (map ((!) circuits) (group_order @ group_order)))"
    unfolding master_circuit_def two using ne
    by (simp add: foldE_compose_group[OF b])
  then have m: "master_circuit 2 circuits = Inr (concat (map ((!) circuits) (?ord @ ?ord)))"
    unfolding group_order_def .
  have c: "\<forall>i < 21. count_list (?ord @ ?ord) i = 2"
    using order_twice unfolding list_all_iff by simp
  have p: "\<exists>diag_qc diag_paulis diag_paulis_qc.
             sim_cliff_diag rank (map primitive (groups ! i)) = Inr (diag_qc, diag_paulis) \<and>
             walk_paulis (new_paulis 2 (groups ! i) diag_paulis) = Inr diag_paulis_qc \<and>
             circuits ! i = diag_qc @ diag_paulis_qc @ map gate_inverse (rev diag_qc) \<and>
             (\<forall>psi. run (map gate_inverse (rev diag_qc)) (run diag_qc psi) = psi)"
    if i: "i < 21" for i
  proof -
    have "i < length groups" using i assms(2) by simp
    from group_circuit_parts[OF group_circuits_nth[OF assms(1) this]]
    obtain diag_qc diag_paulis diag_paulis_qc where
      s: "sim_cliff_diag rank (map primitive (groups ! i)) = Inr (diag_qc, diag_paulis)"
      and w: "walk_paulis (new_paulis 2 (groups ! i) diag_paulis) = Inr diag_paulis_qc"
      and e: "circuits ! i = diag_qc @ diag_paulis_qc @ inverse_circuit diag_qc"
      by auto
    have "\<forall>g \<in> set diag_qc. distinct (qubits g)"
      using sim_cliff_diag_gates[OF s] diag_gate_distinct by blast
    then have "\<forall>psi. run (map gate_inverse (rev diag_qc)) (run diag_qc psi) = psi"
      using run_inverse by blast
    then show ?thesis using s w e unfolding inverse_circuit_def by blast
  qed
  show ?thesis using m c p by blast
qed

lemma example_circuits:
  "group_circuits rank_rows 2 example_groups =
   Inr (map (\<lambda>i. [S_gate 0, H_gate 0, RZ_gate (- real i) 0, H_gate 0, Sdg_gate 0]) [1..<22])"
  by code_simp

theorem master_circuit_structure_witness:
  "group_circuits rank_rows 2 (map (\<lambda>i. [mk_op ''Y'' (real i)]) [1..<22]) =
     Inr (map (\<lambda>i. [S_gate 0, H_gate 0, RZ_gate (- real i) 0, H_gate 0, Sdg_gate 0]) [1..<22]) \<and>
   length (map (\<lambda>i. [mk_op ''Y'' (real i)]) [1..<22]) = 21 \<and>
   master_circuit 2
     (map (\<lambda>i. [S_gate 0, H_gate 0, RZ_gate (- real i) 0, H_gate 0, Sdg_gate 0]) [1..<22]) =
     Inr (concat (map (\<lambda>i. [S_gate 0, H_gate 0, RZ_gate (- real (i + 1)) 0, H_gate 0, Sdg_gate 0])
            [6, 7, 9, 1, 11, 18, 4, 13, 12, 0, 19, 15, 17, 3, 5, 2, 20, 10, 8, 16, 14,
             6, 7, 9, 1, 11, 18, 4, 13, 12, 0, 19, 15, 17, 3, 5, 2, 20, 10, 8, 16, 14])) \<and>
   sim_cliff_diag rank_rows [mk_pauli ''Y''] =
     Inr ([S_gate 0, H_gate 0], [\<lparr>px = [False], pz = [True], phase = 2\<rparr>]) \<and>
   map gate_inverse (rev [S_gate 0, H_gate 0]) = [H_gate 0, Sdg_gate 0]"
proof -
  have l: "length example_groups = 21" by (simp add: example_groups_def)
  have e: "concat (map ((!) (map (\<lambda>i. [S_gate 0, H_gate 0, RZ_gate (- real i) 0, H_gate 0, Sdg_gate 0])
                               [1..<22]))
             ([6, 7, 9, 1, 11, 18, 4, 13, 12, 0, 19, 15, 17, 3, 5, 2, 20, 10, 8, 16, 14] @
              [6, 7, 9, 1, 11, 18, 4, 13, 12, 0, 19, 15, 17, 3, 5, 2, 20, 10, 8, 16, 14]))
      = concat (map (\<lambda>i. [S_gate 0, H_gate 0, RZ_gate (- real (i + 1)) 0, H_gate 0, Sdg_gate 0])
            [6, 7, 9, 1, 11, 18, 4, 13, 12, 0, 19, 15, 17, 3, 5, 2, 20, 10, 8, 16, 14,
             6, 7, 9, 1, 11, 18, 4, 13, 12, 0, 19, 15, 17, 3, 5, 2, 20, 10, 8, 16, 14])"
    by code_simp
  have s: "sim_cliff_diag rank_rows [mk_pauli ''Y''] =
     Inr ([S_gate 0, H_gate 0], [\<lparr>px = [False], pz = [True], phase = 2\<rparr>])"
    by code_simp
  have i: "map gate_inverse (rev [S_gate 0, H_gate 0]) = [H_gate 0, Sdg_gate 0]" by simp
  from master_circuit_structure[OF example_circuits l]
  have "master_circuit 2
     (map (\<lambda>i. [S_gate 0, H_gate 0, RZ_gate (- real i) 0, H_gate 0, Sdg_gate 0]) [1..<22]) =
     Inr (concat (map (\<lambda>i. [S_gate 0, H_gate 0, RZ_gate (- real (i + 1)) 0, H_gate 0, Sdg_gate 0])
            [6, 7, 9, 1, 11, 18, 4, 13, 12, 0, 19, 15, 17, 3, 5, 2, 20, 10, 8, 16, 14,
             6, 7, 9, 1, 11, 18, 4, 13, 12, 0, 19, 15, 17, 3, 5, 2, 20, 10, 8, 16, 14]))"
    unfolding e by blast
  then show ?thesis
    using example_circuits l s i unfolding example_groups_def by simp
qed



section \<open>The failure modes of the notebook\<close>

lemma walk_paulis_ok:
  assumes "dps \<noteq> []" "0 < num_qubits (primitive (hd dps))"
  shows "\<exists>c. walk_paulis dps = Inr c"
proof -
  obtain p0 rest where p: "dps = p0 # rest" using assms(1) by (cases dps) auto
  show ?thesis using assms(2) unfolding p walk_paulis_def by (simp add: Let_def)
qed

lemma group_circuit_ok:
  assumes ne: "grp \<noteq> []" and pos: "0 < w"
    and len: "\<forall>p \<in> set grp. length (px (primitive p)) = w \<and> length (pz (primitive p)) = w"
    and comm: "pairwise_commuting grp"
  shows "\<exists>c. group_circuit exact_rank n grp = Inr c"
proof -
  let ?ps = "map primitive grp"
  have ne': "?ps \<noteq> []" using ne by simp
  have hd: "hd ?ps = primitive (hd grp)" using ne by (simp add: hd_map)
  have w: "num_qubits (hd ?ps) = w" using len ne unfolding hd by (simp add: num_qubits_def)
  have len': "\<forall>p \<in> set ?ps. length (px p) = num_qubits (hd ?ps) \<and>
                             length (pz p) = num_qubits (hd ?ps)"
    unfolding w using len by auto
  have comm': "\<forall>p \<in> set ?ps. \<forall>q \<in> set ?ps. commutes p q"
    using comm by (auto simp: pairwise_commuting_def)
  have pos': "0 < num_qubits (hd ?ps)" unfolding w by (rule pos)
  from sim_cliff_diag_rank_ok[where matrix_rank = exact_rank,
        OF ne' pos' len' comm' elim_pivots_le_rank[OF len' comm']]
  obtain c dps where s: "sim_cliff_diag exact_rank ?ps = Inr (c, dps)"
    and l: "length dps = length ?ps"
    and x: "\<forall>p \<in> set dps. px p = replicate (num_qubits (hd ?ps)) False \<and>
                           length (pz p) = num_qubits (hd ?ps)"
    by blast
  obtain p0 rest where g: "grp = p0 # rest" using ne by (cases grp) auto
  obtain d0 drest where d: "dps = d0 # drest" using l g by (cases dps) auto
  have "px d0 = replicate w False" using x d w by simp
  then have nq: "0 < num_qubits (primitive (hd (new_paulis n grp dps)))"
    using pos unfolding g d by (simp add: new_paulis_def num_qubits_def)
  have nn: "new_paulis n grp dps \<noteq> []" unfolding g d by (simp add: new_paulis_def)
  from walk_paulis_ok[OF nn nq] obtain wc where "walk_paulis (new_paulis n grp dps) = Inr wc"
    by blast
  then show ?thesis using s by (simp add: group_circuit_def)
qed

lemma group_circuits_ok:
  assumes "\<forall>grp \<in> set groups. grp \<noteq> [] \<and> pairwise_commuting grp \<and>
             (\<forall>p \<in> set grp. length (px (primitive p)) = w \<and> length (pz (primitive p)) = w)"
    and "0 < w"
  shows "\<exists>cs. group_circuits exact_rank n groups = Inr cs \<and> length cs = length groups"
  using assms(1)
proof (induction groups)
  case Nil
  then show ?case by simp
next
  case (Cons grp groups)
  then obtain cs where cs: "group_circuits exact_rank n groups = Inr cs" "length cs = length groups"
    by auto
  from Cons.prems have "grp \<noteq> []" "pairwise_commuting grp"
    "\<forall>p \<in> set grp. length (px (primitive p)) = w \<and> length (pz (primitive p)) = w"
    by auto
  from group_circuit_ok[OF this(1) assms(2) this(3) this(2)]
  obtain c where "group_circuit exact_rank n grp = Inr c" by blast
  then show ?case using cs by simp
qed

lemma foldE_compose_group_fail:
  "\<exists>i \<in> set idxs. \<not> i < length cs \<Longrightarrow> foldE (compose_group cs) idxs acc = Inl IndexError"
  by (induction idxs arbitrary: acc) (auto simp: compose_group_def)

lemma master_circuit_ok:
  assumes "21 \<le> length cs"
  shows "master_circuit 2 cs = Inr (concat (map ((!) cs) (group_order @ group_order)))"
proof -
  have ne: "cs \<noteq> []" using assms by auto
  have b: "\<forall>i \<in> set group_order. i < length cs"
    using group_order_bound assms by auto
  have two: "[0..<2] = [0, 1]" by (simp add: upt_rec)
  show ?thesis
    unfolding master_circuit_def two using ne
    by (simp add: foldE_compose_group[OF b])
qed

lemma master_circuit_fail:
  assumes "length cs < 21"
  shows "master_circuit 2 cs = Inl IndexError"
proof (cases "cs = []")
  case True
  then show ?thesis by (simp add: master_circuit_def)
next
  case False
  have "20 \<in> set group_order" by (simp add: group_order_def)
  moreover have "\<not> 20 < length cs" using assms by simp
  ultimately have "\<exists>i \<in> set group_order. \<not> i < length cs" by (rule bexI[rotated])
  then have f: "foldE (compose_group cs) group_order acc = Inl IndexError" for acc
    by (rule foldE_compose_group_fail)
  have two: "[0..<2] = [0, 1]" by (simp add: upt_rec)
  show ?thesis unfolding master_circuit_def two using False by (simp add: f)
qed

lemma commuting_subsets_members:
  assumes "grp \<in> set (commuting_subsets paulis)"
  shows "grp \<noteq> [] \<and> pairwise_commuting grp \<and> set grp \<subseteq> set paulis"
proof -
  from commuting_subsets_inv[of paulis] assms
  have 1: "grp \<noteq> []" "pairwise_commuting grp"
    and m: "mset (concat (commuting_subsets paulis)) = mset paulis" by auto
  have "set (concat (commuting_subsets paulis)) = set paulis"
    using m by (rule mset_eq_setD)
  then have "set grp \<subseteq> set paulis" using assms by auto
  then show ?thesis using 1 by simp
qed

text \<open>The notebook on parsed terms of one width: it completes when the grouping gives at
  least 21 groups, and raises IndexError at \<open>circuits[i]\<close> otherwise.\<close>

lemma notebook_result:
  assumes rd: "read_paulis float_of lines = Inr paulis"
    and pos: "0 < w"
    and len: "\<forall>p \<in> set paulis. length (px (primitive p)) = w \<and> length (pz (primitive p)) = w"
  shows "\<exists>cs. group_circuits exact_rank 2 (commuting_subsets paulis) = Inr cs \<and>
           length cs = length (commuting_subsets paulis) \<and>
           (21 \<le> length cs \<longrightarrow>
              notebook float_of exact_rank lines =
                Inr (concat (map ((!) cs) (group_order @ group_order)))) \<and>
           (length cs < 21 \<longrightarrow> notebook float_of exact_rank lines = Inl IndexError)"
proof -
  have "\<forall>grp \<in> set (commuting_subsets paulis). grp \<noteq> [] \<and> pairwise_commuting grp \<and>
          (\<forall>p \<in> set grp. length (px (primitive p)) = w \<and> length (pz (primitive p)) = w)"
    using commuting_subsets_members[of _ paulis] len by blast
  from group_circuits_ok[OF this pos, of 2] obtain cs where
    cs: "group_circuits exact_rank 2 (commuting_subsets paulis) = Inr cs"
        "length cs = length (commuting_subsets paulis)" by blast
  have n: "notebook float_of exact_rank lines = master_circuit 2 cs"
    using rd cs(1) by (simp add: notebook_def)
  show ?thesis
    using cs n master_circuit_ok[of cs] master_circuit_fail[of cs] by auto
qed





lemma example_read:
  "read_paulis float_example example_lines = Inr (map (\<lambda>s. mk_op s 2) example_labels)"
  by code_simp

lemma example_grouping:
  "commuting_subsets (map (\<lambda>s. mk_op s 2) example_labels) =
   map (\<lambda>s. [mk_op s 2]) example_labels"
  by code_simp

lemma example_widths:
  "\<forall>p \<in> set (map (\<lambda>s. mk_op s 2) example_labels).
     length (px (primitive p)) = 10 \<and> length (pz (primitive p)) = 10"
  by (simp add: example_labels_def mk_op_def mk_pauli_def)








section \<open>The gates of the master circuit\<close>

lemma visit_gates:
  "\<forall>g \<in> set (snd acc). walk_gate g \<Longrightarrow>
   \<forall>g \<in> set (snd (fold (visit start) xs acc)). walk_gate g"
proof (induction xs arbitrary: acc)
  case Nil
  then show ?case by simp
next
  case (Cons x xs)
  obtain i p where x: "x = (i, p)" by (cases x)
  obtain v c where acc: "acc = (v, c)" by (cases acc)
  have "\<forall>g \<in> set (snd (visit start x acc)). walk_gate g"
    using Cons.prems unfolding x acc visit_def by simp
  from Cons.IH[OF this] show ?case by simp
qed

lemma rotating_qubit_less:
  assumes "CHR ''Z'' \<in> set start"
  shows "rotating_qubit start < length start"
proof -
  have t: "x \<in> set xs \<Longrightarrow> \<not> P x \<Longrightarrow> length (takeWhile P xs) < length xs"
    for x :: char and xs P
    by (induction xs) auto
  have "CHR ''Z'' \<in> set (rev start)" using assms by simp
  then have "length (takeWhile (\<lambda>c. c \<noteq> CHR ''Z'') (rev start)) < length (rev start)"
    by (rule t) simp
  then show ?thesis by (simp add: rotating_qubit_def)
qed

lemma walk_gates:
  "\<forall>g \<in> set c. walk_gate g \<Longrightarrow> \<forall>g \<in> set (snd (walk nq dps start c)). walk_gate g"
proof (induction nq dps start c rule: walk.induct)
  case (1 nq dps start c)
  note c = "1.prems"
  show ?case
  proof (cases "CHR ''Z'' \<in> set start")
    case Z: True
    have cx: "walk_gate (CX_gate (length start) (rotating_qubit start))"
      using rotating_qubit_less[OF Z] by simp
    show ?thesis
    proof (cases "length start = nq")
      case True
      have "\<forall>g \<in> set (snd (fold (visit start) (zip [0..<length dps] dps) ([], c))). walk_gate g"
        by (rule visit_gates) (use c in simp)
      then show ?thesis
        using Z True by (subst walk.simps) (simp del: walk.simps)
    next
      case ne: False
      show ?thesis
      proof (cases "length start < nq")
        case lt: True
        obtain v1 c1 where w1: "walk nq dps (CHR ''I'' # start) c = (v1, c1)"
          by (cases "walk nq dps (CHR ''I'' # start) c")
        obtain v2 c2 where w2:
          "walk nq dps (CHR ''Z'' # start)
             (c1 @ [CX_gate (length start) (rotating_qubit start)]) = (v2, c2)"
          by (cases "walk nq dps (CHR ''Z'' # start)
                       (c1 @ [CX_gate (length start) (rotating_qubit start)])")
        have g1: "\<forall>g \<in> set c1. walk_gate g"
          using "1.IH"(1)[OF Z ne lt c] unfolding w1 by simp
        then have "\<forall>g \<in> set (c1 @ [CX_gate (length start) (rotating_qubit start)]). walk_gate g"
          using cx by simp
        from "1.IH"(2)[OF Z ne lt w1[symmetric] this]
        have g2: "\<forall>g \<in> set c2. walk_gate g" unfolding w2 by simp
        have r: "snd (walk nq dps start c) =
                 (if v2 = [] then butlast c2
                  else c2 @ [CX_gate (length start) (rotating_qubit start)])"
          using Z ne lt w1 w2 by (subst walk.simps) (simp del: walk.simps)
        show ?thesis
          unfolding r using g2 cx by (auto dest: in_set_butlastD)
      next
        case False
        then show ?thesis
          using Z ne c by (subst walk.simps) (simp del: walk.simps)
      qed
    qed
  next
    case nZ: False
    show ?thesis
    proof (cases "length start < nq")
      case lt: True
      obtain v1 c1 where w1: "walk nq dps (CHR ''I'' # start) c = (v1, c1)"
        by (cases "walk nq dps (CHR ''I'' # start) c")
      obtain v2 c2 where w2: "walk nq dps (CHR ''Z'' # start) c1 = (v2, c2)"
        by (cases "walk nq dps (CHR ''Z'' # start) c1")
      have g1: "\<forall>g \<in> set c1. walk_gate g"
        using "1.IH"(3)[OF nZ lt c] unfolding w1 by simp
      from "1.IH"(4)[OF nZ lt w1[symmetric] g1]
      have g2: "\<forall>g \<in> set c2. walk_gate g" unfolding w2 by simp
      have r: "snd (walk nq dps start c) = c2"
        using nZ lt w1 w2 by (subst walk.simps) (simp del: walk.simps)
      show ?thesis unfolding r using g2 .
    next
      case False
      then show ?thesis
        using nZ c by (subst walk.simps) (simp del: walk.simps)
    qed
  qed
qed

lemma walk_paulis_gates:
  assumes "walk_paulis dps = Inr c"
  shows "\<forall>g \<in> set c. walk_gate g"
proof -
  obtain p0 rest where p: "dps = p0 # rest"
    using assms by (cases dps) (auto simp: walk_paulis_def)
  have w: "\<forall>g \<in> set (snd (walk nq dps [] [])). walk_gate g" for nq
    by (rule walk_gates) simp
  show ?thesis
    using assms w[of "num_qubits (primitive p0)"] unfolding p walk_paulis_def
    by (auto simp: Let_def simp del: walk.simps split: if_splits)
qed

text \<open>The gates of one group circuit: the diagonalizing circuit has \<open>h\<close>, \<open>s\<close> and \<open>cx\<close>,
  the circuit of the diagonal Paulis \<open>rz\<close>, \<open>cx\<close>, \<open>p\<close> and \<open>x\<close>, and the inverse of the
  diagonalizing circuit \<open>h\<close>, \<open>sdg\<close> and \<open>cx\<close>.\<close>

lemma group_circuit_gates:
  assumes "group_circuit matrix_rank n grp = Inr c"
  shows "\<forall>g \<in> set c.
           ((\<exists>q. g = H_gate q \<or> g = S_gate q \<or> g = Sdg_gate q \<or> g = X_gate q) \<or>
            (\<exists>a q. g = RZ_gate a q \<or> g = P_gate a q) \<or>
            (\<exists>ct t. g = CX_gate ct t \<and> ct \<noteq> t)) \<and>
           (\<forall>q. g = Sdg_gate q \<longrightarrow> S_gate q \<in> set c)"
proof -
  from group_circuit_parts[OF assms] obtain d dps w where
    s: "sim_cliff_diag matrix_rank (map primitive grp) = Inr (d, dps)"
    and wp: "walk_paulis (new_paulis n grp dps) = Inr w"
    and c: "c = d @ w @ inverse_circuit d" by blast
  have dg: "\<forall>g \<in> set d. diag_gate (num_qubits (hd (map primitive grp))) g"
    using sim_cliff_diag_gates[OF s] .
  have wg: "\<forall>g \<in> set w. walk_gate g" using walk_paulis_gates[OF wp] .
  show ?thesis
  proof
    fix g assume "g \<in> set c"
    then consider (d) "g \<in> set d" | (w) "g \<in> set w" | (i) "g \<in> set (inverse_circuit d)"
      unfolding c by auto
    then show "((\<exists>q. g = H_gate q \<or> g = S_gate q \<or> g = Sdg_gate q \<or> g = X_gate q) \<or>
            (\<exists>a q. g = RZ_gate a q \<or> g = P_gate a q) \<or>
            (\<exists>ct t. g = CX_gate ct t \<and> ct \<noteq> t)) \<and>
           (\<forall>q. g = Sdg_gate q \<longrightarrow> S_gate q \<in> set c)"
    proof cases
      case d
      then have "diag_gate (num_qubits (hd (map primitive grp))) g" using dg by blast
      then show ?thesis by (cases g) (auto simp: diag_gate_def)
    next
      case w
      then have "walk_gate g" using wg by blast
      then show ?thesis by (cases g) auto
    next
      case i
      then obtain g' where g': "g' \<in> set d" "g = gate_inverse g'"
        unfolding inverse_circuit_def by auto
      then have "diag_gate (num_qubits (hd (map primitive grp))) g'" using dg by blast
      then show ?thesis using g' unfolding c by (cases g') (auto simp: diag_gate_def)
    qed
  qed
qed

lemma foldE_compose_group_Inr:
  assumes "foldE (compose_group cs) idxs acc = Inr c"
  shows "\<forall>i \<in> set idxs. i < length cs"
proof (rule ccontr)
  assume "\<not> (\<forall>i \<in> set idxs. i < length cs)"
  then have "\<exists>i \<in> set idxs. \<not> i < length cs" by simp
  from foldE_compose_group_fail[OF this] assms show False by simp
qed

lemma master_circuit_Inr:
  assumes "master_circuit 2 cs = Inr c"
  shows "c = concat (map ((!) cs) (group_order @ group_order)) \<and>
         (\<forall>i \<in> set group_order. i < length cs)"
proof -
  have ne: "cs \<noteq> []" using assms by (auto simp: master_circuit_def split: if_splits)
  have two: "[0..<2] = [0, 1]" by (simp add: upt_rec)
  obtain c1 where c1: "foldE (compose_group cs) group_order [] = Inr c1"
    using assms ne unfolding master_circuit_def two
    by (cases "foldE (compose_group cs) group_order []") auto
  have b: "\<forall>i \<in> set group_order. i < length cs" using foldE_compose_group_Inr[OF c1] .
  have "master_circuit 2 cs = Inr (concat (map ((!) cs) (group_order @ group_order)))"
    unfolding master_circuit_def two using ne by (simp add: foldE_compose_group[OF b])
  then show ?thesis using assms b by simp
qed

lemma notebook_Inr:
  assumes "notebook float_of matrix_rank lines = Inr c"
  shows "\<exists>paulis cs. read_paulis float_of lines = Inr paulis \<and>
           group_circuits matrix_rank 2 (commuting_subsets paulis) = Inr cs \<and>
           master_circuit 2 cs = Inr c"
  using assms unfolding notebook_def by (auto split: sum.splits)

lemma notebook_gates:
  assumes "notebook float_of matrix_rank lines = Inr c"
  shows "\<forall>g \<in> set c.
           ((\<exists>q. g = H_gate q \<or> g = S_gate q \<or> g = Sdg_gate q \<or> g = X_gate q) \<or>
            (\<exists>a q. g = RZ_gate a q \<or> g = P_gate a q) \<or>
            (\<exists>ct t. g = CX_gate ct t \<and> ct \<noteq> t)) \<and>
           (\<forall>q. g = Sdg_gate q \<longrightarrow> S_gate q \<in> set c)"
proof
  fix g assume g: "g \<in> set c"
  from notebook_Inr[OF assms] obtain paulis cs where
    gc: "group_circuits matrix_rank 2 (commuting_subsets paulis) = Inr cs"
    and m: "master_circuit 2 cs = Inr c" by blast
  from master_circuit_Inr[OF m] have c: "c = concat (map ((!) cs) (group_order @ group_order))"
    and b: "\<forall>i \<in> set group_order. i < length cs" by auto
  from g obtain i where i: "i \<in> set group_order" "g \<in> set (cs ! i)"
    unfolding c by auto
  have il: "i < length (commuting_subsets paulis)"
    using b i(1) group_circuits_length[OF gc] by simp
  have sub: "set (cs ! i) \<subseteq> set c" unfolding c using i(1) by auto
  from group_circuit_gates[OF group_circuits_nth[OF gc il]] i(2)
  have "((\<exists>q. g = H_gate q \<or> g = S_gate q \<or> g = Sdg_gate q \<or> g = X_gate q) \<or>
            (\<exists>a q. g = RZ_gate a q \<or> g = P_gate a q) \<or>
            (\<exists>ct t. g = CX_gate ct t \<and> ct \<noteq> t)) \<and>
           (\<forall>q. g = Sdg_gate q \<longrightarrow> S_gate q \<in> set (cs ! i))"
    by blast
  then show "((\<exists>q. g = H_gate q \<or> g = S_gate q \<or> g = Sdg_gate q \<or> g = X_gate q) \<or>
            (\<exists>a q. g = RZ_gate a q \<or> g = P_gate a q) \<or>
            (\<exists>ct t. g = CX_gate ct t \<and> ct \<noteq> t)) \<and>
           (\<forall>q. g = Sdg_gate q \<longrightarrow> S_gate q \<in> set c)"
    using sub by blast
qed

lemma group_circuit_cong:
  assumes "r1 (map (\<lambda>p. px p @ pz p) (map primitive grp)) =
           r2 (map (\<lambda>p. px p @ pz p) (map primitive grp))"
  shows "group_circuit r1 n grp = group_circuit r2 n grp"
  unfolding group_circuit_def
    sim_cliff_diag_cong[where ?r1.0 = r1 and ?r2.0 = r2 and paulis = "map primitive grp", OF assms]
  by (rule refl)

lemma example_group_y:
  "group_circuit exact_rank 2 [mk_op ''IIIIIIIIIY'' 2] =
     Inr [S_gate 0, H_gate 0, RZ_gate (- 2) 0, H_gate 0, Sdg_gate 0]"
proof -
  let ?r = "[True, False, False, False, False, False, False, False, False, False,
             True, False, False, False, False, False, False, False, False, False]"
  have m: "map (\<lambda>p. px p @ pz p) (map primitive [mk_op ''IIIIIIIIIY'' 2]) = [?r]"
    by (simp add: mk_op_def mk_pauli_def)
  have "exact_rank [?r] = 1" by (rule exact_rank_single[where r = ?r]) simp_all
  then have "exact_rank (map (\<lambda>p. px p @ pz p) (map primitive [mk_op ''IIIIIIIIIY'' 2])) =
             rank_rows (map (\<lambda>p. px p @ pz p) (map primitive [mk_op ''IIIIIIIIIY'' 2]))"
    unfolding m by (simp add: rank_rows_def)
  then have "group_circuit exact_rank 2 [mk_op ''IIIIIIIIIY'' 2] =
             group_circuit rank_rows 2 [mk_op ''IIIIIIIIIY'' 2]"
    by (rule group_circuit_cong)
  also have "\<dots> = Inr [S_gate 0, H_gate 0, RZ_gate (- 2) 0, H_gate 0, Sdg_gate 0]"
    by code_simp
  finally show ?thesis .
qed

text \<open>The notebook on the 21 lines of the example: it completes, and its circuit holds the
  circuit of the second group, which ends in an \<open>sdg\<close> gate.\<close>

lemma example_notebook:
  "\<exists>c. notebook float_example exact_rank example_lines = Inr c \<and>
       set [S_gate 0, H_gate 0, RZ_gate (- 2) 0, H_gate 0, Sdg_gate 0] \<subseteq> set c"
proof -
  let ?ps = "map (\<lambda>s. mk_op s 2) example_labels"
  have p10: "(0::nat) < 10" by simp
  from notebook_result[OF example_read p10 example_widths] obtain cs where
    gc: "group_circuits exact_rank 2 (commuting_subsets ?ps) = Inr cs"
    and l: "length cs = length (commuting_subsets ?ps)"
    and n: "21 \<le> length cs \<longrightarrow> notebook float_example exact_rank example_lines =
              Inr (concat (map ((!) cs) (group_order @ group_order)))"
    by blast
  have l21: "length (commuting_subsets ?ps) = 21"
    unfolding example_grouping by (simp add: example_labels_def)
  have nb: "notebook float_example exact_rank example_lines =
              Inr (concat (map ((!) cs) (group_order @ group_order)))"
    using n l l21 by simp
  have g1: "commuting_subsets ?ps ! 1 = [mk_op ''IIIIIIIIIY'' 2]"
    unfolding example_grouping by (simp add: example_labels_def)
  have "group_circuit exact_rank 2 (commuting_subsets ?ps ! 1) = Inr (cs ! 1)"
    by (rule group_circuits_nth[OF gc]) (simp add: l21)
  then have c1: "cs ! 1 = [S_gate 0, H_gate 0, RZ_gate (- 2) 0, H_gate 0, Sdg_gate 0]"
    unfolding g1 example_group_y by simp
  have "1 \<in> set (group_order @ group_order)" by (simp add: group_order_def)
  then have "set (cs ! 1) \<subseteq> set (concat (map ((!) cs) (group_order @ group_order)))"
    by (intro subsetI) (simp only: set_concat set_map, blast)
  then show ?thesis using nb c1 by simp
qed

text \<open>
  Claim C5 (amended). Every gate of the emitted master circuit is a single-qubit gate
  \<open>h\<close>, \<open>s\<close>, \<open>sdg\<close>, \<open>rz\<close>, \<open>p\<close> or \<open>x\<close>, or a CNOT on two different qubits. The \<open>sdg\<close>
  gates, which the list of the claim omits, come from \<open>diag_qc.inverse()\<close>: each one
  inverts an \<open>s\<close> gate on the same qubit that the circuit also holds.
\<close>

theorem master_circuit_gate_set:
  assumes "notebook float_of matrix_rank lines = Inr c"
  shows "\<forall>g \<in> set c.
           ((\<exists>q. g = H_gate q \<or> g = S_gate q \<or> g = Sdg_gate q \<or> g = X_gate q) \<or>
            (\<exists>a q. g = RZ_gate a q \<or> g = P_gate a q) \<or>
            (\<exists>ct t. g = CX_gate ct t \<and> ct \<noteq> t)) \<and>
           (\<forall>q. g = Sdg_gate q \<longrightarrow> S_gate q \<in> set c)"
  using notebook_gates[OF assms] .

theorem master_circuit_gate_set_witness:
  "\<exists>c. notebook float_example exact_rank example_lines = Inr c \<and>
       Sdg_gate 0 \<in> set c \<and> S_gate 0 \<in> set c \<and>
       list_all (\<lambda>g. (\<exists>q. g = H_gate q \<or> g = S_gate q \<or> g = Sdg_gate q \<or> g = X_gate q) \<or>
                     (\<exists>a q. g = RZ_gate a q \<or> g = P_gate a q) \<or>
                     (\<exists>ct t. g = CX_gate ct t \<and> ct \<noteq> t)) c"
proof -
  from example_notebook obtain c where
    c: "notebook float_example exact_rank example_lines = Inr c" and s: "Sdg_gate 0 \<in> set c"
    by auto
  from master_circuit_gate_set[OF c]
  have a: "\<forall>g \<in> set c.
           ((\<exists>q. g = H_gate q \<or> g = S_gate q \<or> g = Sdg_gate q \<or> g = X_gate q) \<or>
            (\<exists>a q. g = RZ_gate a q \<or> g = P_gate a q) \<or>
            (\<exists>ct t. g = CX_gate ct t \<and> ct \<noteq> t)) \<and>
           (\<forall>q. g = Sdg_gate q \<longrightarrow> S_gate q \<in> set c)" .
  then have "S_gate 0 \<in> set c" using s by blast
  moreover have "list_all (\<lambda>g. (\<exists>q. g = H_gate q \<or> g = S_gate q \<or> g = Sdg_gate q \<or> g = X_gate q) \<or>
                     (\<exists>a q. g = RZ_gate a q \<or> g = P_gate a q) \<or>
                     (\<exists>ct t. g = CX_gate ct t \<and> ct \<noteq> t)) c"
    unfolding list_all_iff using a by blast
  ultimately show ?thesis using c s by blast
qed

text \<open>An input file of 21 lines in the format of the notebook on which the script
  completes and emits an \<open>sdg\<close> gate: the circuit of its second group, the single term
  \<open>IIIIIIIIIY\<close>, is \<open>s, h, rz, h, sdg\<close>.\<close>

theorem master_circuit_has_sdg:
  "group_circuit exact_rank 2 [mk_op ''IIIIIIIIIY'' 2] =
     Inr [S_gate 0, H_gate 0, RZ_gate (- 2) 0, H_gate 0, Sdg_gate 0] \<and>
   \<not> isl (notebook float_example exact_rank example_lines) \<and>
   Sdg_gate 0 \<in> set (projr (notebook float_example exact_rank example_lines))"
proof -
  from example_notebook obtain c where
    c: "notebook float_example exact_rank example_lines = Inr c" and s: "Sdg_gate 0 \<in> set c"
    by auto
  show ?thesis using example_group_y s unfolding c by simp
qed

end
